theory Spec2Isabelle
  imports Main "HOL-Library.Word" "HOL-Library.Multiset" "HOL-Library.Signed_Division"
begin

unbundle bit_operations_syntax

section \<open>Machine integers\<close>

text \<open>
  \<^verbatim>\<open>int64_t\<close> is \<open>64 word\<close> read through \<open>sint\<close>, \<^verbatim>\<open>uint64_t\<close> is \<open>64 word\<close>
  read through \<open>unat\<close>, and C's \<^verbatim>\<open>int\<close> is \<open>32 word\<close> read through \<open>sint\<close>.
  Converting an \<^verbatim>\<open>int64_t\<close> to \<^verbatim>\<open>int\<close> keeps the low 32 bits (\<open>ucast\<close>), which is what
  the compilers the library is built with do.
\<close>

type_synonym int64_t = "64 word"
type_synonym c_int = "32 word"

section \<open>Loops with a stride\<close>

text \<open>
  The indices visited by \<^verbatim>\<open>for (i = i0; i < lim; i += step)\<close>. With \<open>step = 0\<close> and
  \<open>i0 < lim\<close> the C loop would not end; the only loop below whose step is not the
  constant 2 has \<open>lim = num * step\<close>, which is 0 when the step is.
\<close>

function strided :: "nat \<Rightarrow> nat \<Rightarrow> nat \<Rightarrow> nat list" where
  "strided i lim step = (if i < lim \<and> 0 < step then i # strided (i + step) lim step else [])"
  by pat_completeness auto
termination
  by (relation "measure (\<lambda>(i, lim, step). lim - i)") auto

declare strided.simps [simp del]

section \<open>File snarfing: byte swapping\<close>

text \<open>
  \<^verbatim>\<open>bs64\<close> (stinger\_utils.c, lines 136--146): three swap rounds on the unsigned
  reading of the argument: the two 32-bit halves, then the 16-bit quarters inside
  each half, then the bytes inside each quarter.
\<close>

definition bs64 :: "int64_t \<Rightarrow> int64_t" where
  "bs64 xin =
     (let x = xin;
          x = drop_bit 32 x OR push_bit 32 x;
          x = drop_bit 16 (x AND 0xFFFF0000FFFF0000) OR push_bit 16 (x AND 0x0000FFFF0000FFFF);
          x = drop_bit 8 (x AND 0xFF00FF00FF00FF00) OR push_bit 8 (x AND 0x00FF00FF00FF00FF)
      in x)"

text \<open>
  \<^verbatim>\<open>bs64_n\<close> (lines 148--154): \<^verbatim>\<open>for (k = 0; k < n; ++k) d[k] = bs64 (d[k])\<close>.
  The iterations touch different elements, so the order in which the parallel loop
  runs them does not matter. Reading past the end of \<open>d\<close> is undefined in C; the
  model returns \<open>None\<close> there.
\<close>

definition bs64_n :: "nat \<Rightarrow> int64_t list \<Rightarrow> int64_t list option" where
  "bs64_n n d =
     (if n \<le> length d then Some (fold (\<lambda>k d. d[k := bs64 (d ! k)]) [0..<n] d) else None)"

text \<open>Byte number \<open>k\<close> of a 64-bit word, byte 0 being the least significant one.\<close>

definition byte_of :: "int64_t \<Rightarrow> nat \<Rightarrow> 8 word" where
  "byte_of x k = ucast (drop_bit (8 * k) x)"

section \<open>Comparators\<close>

text \<open>
  \<^verbatim>\<open>i64_cmp\<close> (lines 1101--1107) returns \<^verbatim>\<open>va - vb\<close>, a 64-bit difference, through
  its \<^verbatim>\<open>int\<close> return type.
\<close>

definition i64_cmp :: "int64_t \<Rightarrow> int64_t \<Rightarrow> c_int" where
  "i64_cmp va vb = ucast (va - vb)"

text \<open>
  \<^verbatim>\<open>csr_cmp\<close> (lines 401--403) receives two pointers to pointers into the neighbor
  array; a pointer into the array is the index of the element it points to.
\<close>

definition csr_cmp :: "int64_t list \<Rightarrow> nat \<Rightarrow> nat \<Rightarrow> c_int" where
  "csr_cmp ind a b = ucast (ind ! a - ind ! b)"

text \<open>\<^verbatim>\<open>struct adj_sort_t\<close> and \<^verbatim>\<open>i64cmp_adj_sort\<close> (lines 392--398).\<close>

record adj_sort_t =
  vtx :: int64_t
  wgt :: int64_t

definition i64cmp_adj_sort :: "adj_sort_t \<Rightarrow> adj_sort_t \<Rightarrow> c_int" where
  "i64cmp_adj_sort ap bp = ucast (vtx ap - vtx bp)"

section \<open>Inclusive prefix sum\<close>

text \<open>
  \<^verbatim>\<open>prefix_sum\<close> (lines 1189--1249) has two bodies. Additions wrap around, as the
  machine's do. Both bodies return \<^verbatim>\<open>ary[n-1]\<close>, which lies outside the array for
  \<open>n = 0\<close> or \<open>n\<close> beyond the array; the model returns \<open>None\<close> there.

  Without OpenMP (lines 1241--1249):
  \<^verbatim>\<open>for (k = 1; k < n; ++k) ary[k] += ary[k-1]; return ary[n-1];\<close>
\<close>

definition prefix_sum_serial :: "nat \<Rightarrow> int64_t list \<Rightarrow> (int64_t list \<times> int64_t) option" where
  "prefix_sum_serial n ary =
     (if 0 < n \<and> n \<le> length ary
      then let a = fold (\<lambda>k a. a[k := a ! k + a ! (k - 1)]) [1..<n] ary in Some (a, a ! (n - 1))
      else None)"

text \<open>
  With OpenMP (lines 1192--1238) the function is called by every thread of a team of
  \<open>nt\<close> threads; thread \<open>tid\<close> owns the slice from \<^verbatim>\<open>(tid * n) / nt\<close> up to
  \<^verbatim>\<open>((tid + 1) * n) / nt\<close>.
\<close>

definition slice_begin :: "nat \<Rightarrow> nat \<Rightarrow> nat \<Rightarrow> nat" where
  "slice_begin nt n tid = (tid * n) div nt"

definition slice_end :: "nat \<Rightarrow> nat \<Rightarrow> nat \<Rightarrow> nat" where
  "slice_end nt n tid = ((tid + 1) * n) div nt"

text \<open>Before the first barrier thread \<open>tid\<close> stores the sum of its slice in \<^verbatim>\<open>buf[tid]\<close>.\<close>

definition slice_sum :: "nat \<Rightarrow> nat \<Rightarrow> int64_t list \<Rightarrow> nat \<Rightarrow> int64_t list \<Rightarrow> int64_t list" where
  "slice_sum nt n ary tid buf =
     buf[tid := fold (\<lambda>k tmp. tmp + ary ! k) [slice_begin nt n tid..<slice_end nt n tid] 0]"

text \<open>The \<^verbatim>\<open>omp single\<close> block: \<^verbatim>\<open>for (k = 1; k < nt; ++k) buf[k] += buf[k-1]\<close>.\<close>

definition scan_slice_sums :: "nat \<Rightarrow> int64_t list \<Rightarrow> int64_t list" where
  "scan_slice_sums nt buf = fold (\<lambda>k buf. buf[k := buf ! k + buf ! (k - 1)]) [1..<nt] buf"

text \<open>
  After the second barrier thread \<open>tid\<close> adds the total of the slices before its own to
  \<^verbatim>\<open>ary[slice_begin]\<close>, whether or not its slice is empty, and scans its slice.
\<close>

definition scan_slice :: "nat \<Rightarrow> nat \<Rightarrow> int64_t list \<Rightarrow> nat \<Rightarrow> int64_t list \<Rightarrow> int64_t list" where
  "scan_slice nt n buf tid ary =
     (let t1 = (if tid \<noteq> 0 then buf ! (tid - 1) else 0);
          ary = ary[slice_begin nt n tid := ary ! slice_begin nt n tid + t1]
      in fold (\<lambda>k a. a[k := a ! k + a ! (k - 1)]) [slice_begin nt n tid + 1..<slice_end nt n tid] ary)"

text \<open>
  The whole call. Between two barriers the threads of the team are run one after the
  other in the order of their ids. Threads with non-empty slices write to different
  elements, so for them the order is immaterial; a thread with an empty slice updates
  the first element of the next non-empty slice, which the owner of that slice updates
  too (two unsynchronised updates of one element, run here one after the other).
\<close>

definition prefix_sum_omp :: "nat \<Rightarrow> nat \<Rightarrow> int64_t list \<Rightarrow> (int64_t list \<times> int64_t) option" where
  "prefix_sum_omp nt n ary =
     (if 0 < nt \<and> 0 < n \<and> n \<le> length ary
      then let buf = fold (slice_sum nt n ary) [0..<nt] (replicate nt 0);
               buf = scan_slice_sums nt buf;
               a = fold (scan_slice nt n buf) [0..<nt] ary
           in Some (a, a ! (n - 1))
      else None)"

section \<open>Counting sort\<close>

text \<open>
  \<^verbatim>\<open>counting_sort\<close> (lines 566--595). The keys are read at \<^verbatim>\<open>array[0]\<close>,
  \<^verbatim>\<open>array[size]\<close>, \<^verbatim>\<open>array[2*size]\<close>, ... (\<open>sz\<close> is the parameter \<^verbatim>\<open>size\<close>).
  Every loop of the function is a definition of its own.

  The first loop finds the minimum and the maximum of the keys.
\<close>

definition find_min_max :: "int64_t list \<Rightarrow> nat \<Rightarrow> nat \<Rightarrow> int64_t \<times> int64_t" where
  "find_min_max array num sz =
     fold (\<lambda>i (minv, maxv).
             if array ! i <s minv then (array ! i, maxv)
             else if maxv <s array ! i then (minv, array ! i)
             else (minv, maxv))
          (strided sz (num * sz) sz) (array ! 0, array ! 0)"

text \<open>
  The histogram: \<^verbatim>\<open>count[i] = 0\<close> for \<open>i < range\<close>, then \<^verbatim>\<open>count[array[i] - min]++\<close> for
  every key. The counts are at most \<open>num\<close> and are kept as natural numbers.
\<close>

definition count_keys :: "int64_t list \<Rightarrow> nat \<Rightarrow> nat \<Rightarrow> int64_t \<Rightarrow> nat \<Rightarrow> nat list" where
  "count_keys array num sz minv rng =
     fold (\<lambda>i cnt. cnt[unat (array ! i - minv) := cnt ! unat (array ! i - minv) + 1])
          (strided 0 (num * sz) sz)
          (fold (\<lambda>i cnt. cnt[i := 0]) [0..<rng] (replicate rng 0))"

text \<open>
  The inner loop of the output phase, \<^verbatim>\<open>for (j = 0; j < count[i - min]; j++) array[z++] = i\<close>:
  the value \<open>i\<close> is written \<open>c\<close> times at the consecutive positions \<open>z, z+1, ...\<close>.
\<close>

definition emit_value :: "int64_t \<Rightarrow> nat \<Rightarrow> int64_t list \<times> nat \<Rightarrow> int64_t list \<times> nat" where
  "emit_value i c = fold (\<lambda>j (array, z). (array[z := i], z + 1)) [0..<c]"

text \<open>
  The outer loop \<^verbatim>\<open>for (i = min; i <= max; i++)\<close>, with \<open>i = min + k\<close>; \<open>z\<close> starts at 0
  and advances by one per written value, whatever the stride \<open>sz\<close> is.
\<close>

definition emit_all :: "int64_t \<Rightarrow> nat \<Rightarrow> nat list \<Rightarrow> int64_t list \<Rightarrow> int64_t list" where
  "emit_all minv rng cnt array =
     fst (fold (\<lambda>k. emit_value (minv + word_of_nat k) (cnt ! k)) [0..<rng] (array, 0))"

text \<open>
  The function after its first loop. \<open>None\<close> stands for undefined behaviour:
  \<^verbatim>\<open>max - min + 1\<close> does not fit the \<^verbatim>\<open>int\<close> variable \<^verbatim>\<open>range\<close> (then the histogram,
  which has \<^verbatim>\<open>range\<close> entries, is indexed outside its bounds by the largest key).
\<close>

fun counting_sort_range :: "int64_t list \<Rightarrow> nat \<Rightarrow> nat \<Rightarrow> int64_t \<times> int64_t \<Rightarrow> int64_t list option" where
  "counting_sort_range array num sz (minv, maxv) =
     (if 2 ^ 31 \<le> sint maxv - sint minv + 1 then None
      else Some (emit_all minv (nat (sint maxv - sint minv + 1))
                   (count_keys array num sz minv (nat (sint maxv - sint minv + 1))) array))"

text \<open>
  The whole function; \<open>None\<close> also when \<^verbatim>\<open>array[0]\<close> or a key lies outside the array.
\<close>

definition counting_sort :: "int64_t list \<Rightarrow> nat \<Rightarrow> nat \<Rightarrow> int64_t list option" where
  "counting_sort array num sz =
     (if array = [] \<or> (0 < num \<and> length array \<le> (num - 1) * sz) then None
      else counting_sort_range array num sz (find_min_max array num sz))"

text \<open>The keys of \<open>num\<close> items of \<open>sz\<close> words each: the first word of every item.\<close>

definition keys_at :: "int64_t list \<Rightarrow> nat \<Rightarrow> nat \<Rightarrow> int64_t list" where
  "keys_at array num sz = map (\<lambda>j. array ! (j * sz)) [0..<num]"

section \<open>The C library's \<open>qsort\<close>\<close>

text \<open>
  \<^verbatim>\<open>qsort\<close> belongs to the C library, not to the repository. It is modelled by a
  sort that consults only the comparison function: an insertion sort that puts \<open>x\<close>
  before the first \<open>y\<close> for which \<open>cmp x y\<close> is not positive. For a comparison function
  that is a total order on the elements, every correct \<^verbatim>\<open>qsort\<close> returns the same list.
\<close>

fun qsort_insert :: "('a \<Rightarrow> 'a \<Rightarrow> c_int) \<Rightarrow> 'a \<Rightarrow> 'a list \<Rightarrow> 'a list" where
  "qsort_insert cmp x [] = [x]"
| "qsort_insert cmp x (y # ys) = (if sint (cmp x y) \<le> 0 then x # y # ys else y # qsort_insert cmp x ys)"

definition qsort :: "('a \<Rightarrow> 'a \<Rightarrow> c_int) \<Rightarrow> 'a list \<Rightarrow> 'a list" where
  "qsort cmp xs = foldr (qsort_insert cmp) xs []"

section \<open>Bucket sort for pairs\<close>

text \<open>\<^verbatim>\<open>i64_pair_cmp\<close> (lines 597--613) compares two pairs lexicographically.\<close>

definition i64_pair_cmp :: "int64_t \<times> int64_t \<Rightarrow> int64_t \<times> int64_t \<Rightarrow> c_int" where
  "i64_pair_cmp pa pb =
     (if fst pa <s fst pb then -1
      else if fst pb <s fst pa then 1
      else if snd pa <s snd pb then -1
      else if snd pb <s snd pa then 1
      else 0)"

text \<open>
  An array of pairs is a flat array \<open>[first\<^sub>0, second\<^sub>0, first\<^sub>1, second\<^sub>1, ...]\<close>.
  \<^verbatim>\<open>qsort (&array[base], n, 2 * sizeof (int64_t), i64_pair_cmp)\<close> sorts the \<open>n\<close> pairs
  that start at index \<open>base\<close>.
\<close>

fun pairs_of :: "'a list \<Rightarrow> ('a \<times> 'a) list" where
  "pairs_of (a # b # xs) = (a, b) # pairs_of xs"
| "pairs_of _ = []"

fun flat_of :: "('a \<times> 'a) list \<Rightarrow> 'a list" where
  "flat_of [] = []"
| "flat_of ((a, b) # ps) = a # b # flat_of ps"

definition qsort_pairs_at :: "int64_t list \<Rightarrow> nat \<Rightarrow> nat \<Rightarrow> int64_t list" where
  "qsort_pairs_at array base n =
     take base array
     @ flat_of (qsort i64_pair_cmp (pairs_of (take (2 * n) (drop base array))))
     @ drop (base + 2 * n) array"

text \<open>
  \<^verbatim>\<open>bucket_sort_pairs\<close> (lines 880--949), loop by loop. First the largest and the
  smallest first element.
\<close>

definition key_max :: "int64_t list \<Rightarrow> nat \<Rightarrow> int64_t" where
  "key_max array num =
     fold (\<lambda>i maxv. if maxv <s array ! i then array ! i else maxv) (strided 2 (2 * num) 2) (array ! 0)"

definition key_min :: "int64_t list \<Rightarrow> nat \<Rightarrow> int64_t" where
  "key_min array num =
     fold (\<lambda>i minv. if array ! i <s minv then array ! i else minv) (strided 2 (2 * num) 2) (array ! 0)"

text \<open>
  The pointer \<^verbatim>\<open>start\<close> is moved by \<^verbatim>\<open>start += 2\<close>, \<^verbatim>\<open>start--\<close> and \<^verbatim>\<open>start--\<close>; the
  model keeps the allocated array of \<open>range + 2\<close> entries and adds the current
  displacement (2, then 1, then 0) to every index. The entries are sums of at most
  \<open>num\<close> twos and are kept as unbounded integers.

  The histogram of the first elements: \<^verbatim>\<open>start[i] = 0\<close> for \<open>i < range + 2\<close>, then
  \<^verbatim>\<open>start[array[i] + offset] += 2\<close> with the displacement 2.
\<close>

definition bucket_histogram :: "int64_t list \<Rightarrow> nat \<Rightarrow> int64_t \<Rightarrow> nat \<Rightarrow> int list" where
  "bucket_histogram array num offset rng =
     fold (\<lambda>i start. start[2 + unat (array ! i + offset) := start ! (2 + unat (array ! i + offset)) + 2])
          (strided 0 (2 * num) 2)
          (fold (\<lambda>i start. start[i := 0]) [0..<rng + 2] (replicate (rng + 2) 0))"

text \<open>\<^verbatim>\<open>for (i = 0; i < range; i++) start[i] += start[i-1]\<close>, still with the displacement 2.\<close>

definition bucket_starts :: "nat \<Rightarrow> int list \<Rightarrow> int list" where
  "bucket_starts rng start =
     fold (\<lambda>i start. start[2 + i := start ! (2 + i) + start ! (2 + i - 1)]) [0..<rng] start"

text \<open>
  Moving the pairs into \<^verbatim>\<open>tmp\<close>, with the displacement 1.
  \<^verbatim>\<open>stinger_int64_fetch_add\<close> returns the old value of the entry and adds 2 to it; the
  iterations of the parallel loop are run in index order.
\<close>

definition bucket_move :: "int64_t list \<Rightarrow> nat \<Rightarrow> int64_t \<Rightarrow> int list \<times> int64_t list \<Rightarrow> int list \<times> int64_t list" where
  "bucket_move array num offset =
     fold (\<lambda>i (start, tmp).
             let index = start ! (1 + unat (array ! i + offset))
             in (start[1 + unat (array ! i + offset) := index + 2],
                 tmp[nat index := array ! i, nat index + 1 := array ! (i + 1)]))
          (strided 0 (2 * num) 2)"

text \<open>\<^verbatim>\<open>for (i = 0; i < num<<1; i++) array[i] = tmp[i]\<close>.\<close>

definition copy_back :: "nat \<Rightarrow> int64_t list \<Rightarrow> int64_t list \<Rightarrow> int64_t list" where
  "copy_back n tmp array = fold (\<lambda>i array. array[i := tmp ! i]) [0..<n] array"

text \<open>
  The last loop, with the displacement 0: every bucket of at least two pairs is sorted
  by \<^verbatim>\<open>qsort\<close>.
\<close>

definition sort_buckets :: "nat \<Rightarrow> int list \<Rightarrow> int64_t list \<Rightarrow> int64_t list" where
  "sort_buckets rng start array =
     fold (\<lambda>i array.
             if 4 \<le> start ! (i + 1) - start ! i
             then qsort_pairs_at array (nat (start ! i)) (nat ((start ! (i + 1) - start ! i) div 2))
             else array)
          [0..<rng] array"

text \<open>The function from the histogram on; fresh memory (\<^verbatim>\<open>tmp\<close>, \<^verbatim>\<open>start\<close>) holds zeros.\<close>

fun bucket_finish :: "nat \<Rightarrow> nat \<Rightarrow> int64_t list \<Rightarrow> int list \<times> int64_t list \<Rightarrow> int64_t list" where
  "bucket_finish num rng array (start, tmp) = sort_buckets rng start (copy_back (2 * num) tmp array)"

definition bucket_sort_range :: "int64_t list \<Rightarrow> nat \<Rightarrow> int64_t \<Rightarrow> nat \<Rightarrow> int64_t list" where
  "bucket_sort_range array num offset rng =
     bucket_finish num rng array
       (bucket_move array num offset
          (bucket_starts rng (bucket_histogram array num offset rng), replicate (2 * num) 0))"

text \<open>
  \<^verbatim>\<open>range = max - min + 1\<close> and \<^verbatim>\<open>offset = 0 - min\<close>. \<open>None\<close> stands for undefined
  behaviour: the size \<^verbatim>\<open>(range + 2) * sizeof (int64_t)\<close> of the histogram cannot be
  computed.
\<close>

definition bucket_sort_keys :: "int64_t list \<Rightarrow> nat \<Rightarrow> int64_t \<Rightarrow> int64_t \<Rightarrow> int64_t list option" where
  "bucket_sort_keys array num maxv minv =
     (if 2 ^ 61 \<le> sint maxv - sint minv + 3 then None
      else Some (bucket_sort_range array num (0 - minv) (nat (sint maxv - sint minv + 1))))"

text \<open>The whole function; \<open>None\<close> also when \<^verbatim>\<open>array[0]\<close> or a pair lies outside the array.\<close>

definition bucket_sort_pairs :: "int64_t list \<Rightarrow> nat \<Rightarrow> int64_t list option" where
  "bucket_sort_pairs array num =
     (if array = [] \<or> length array < 2 * num then None
      else bucket_sort_keys array num (key_max array num) (key_min array num))"

section \<open>Radix sort for pairs\<close>

text \<open>
  \<^verbatim>\<open>radix_sort_pairs\<close> (lines 960--1092), loop by loop. \<open>len\<close> is the parameter
  \<^verbatim>\<open>length\<close>, the number of array elements (two per pair).

  The first loop copies \<^verbatim>\<open>x\<close> to \<^verbatim>\<open>copy1\<close> and finds the largest and the smallest
  second element, starting from \<^verbatim>\<open>x[1]\<close>.
\<close>

definition radix_scan :: "int64_t list \<Rightarrow> nat \<Rightarrow> int64_t list \<times> int64_t \<times> int64_t" where
  "radix_scan x len =
     fold (\<lambda>i (copy1, maxv, minv).
             (copy1[i := x ! i, i + 1 := x ! (i + 1)],
              if maxv <s x ! (i + 1) then x ! (i + 1) else maxv,
              if x ! (i + 1) <s minv then x ! (i + 1) else minv))
          (strided 0 len 2) (replicate len 0, x ! 1, x ! 1)"

text \<open>\<^verbatim>\<open>copy1[i+1] += min\<close> (and, at the end, \<^verbatim>\<open>copy1[i+1] -= min\<close>) for every pair.\<close>

definition shift_seconds :: "nat \<Rightarrow> int64_t \<Rightarrow> int64_t list \<Rightarrow> int64_t list" where
  "shift_seconds len d copy1 = fold (\<lambda>i copy1. copy1[i + 1 := copy1 ! (i + 1) + d]) (strided 0 len 2) copy1"

text \<open>
  The digit of a value in a pass is \<^verbatim>\<open>(v >> denShift) & bitMask\<close> with
  \<^verbatim>\<open>bitMask = (1 << numBits) - 1\<close>; the shift of a negative value is arithmetic.
\<close>

definition digit :: "nat \<Rightarrow> nat \<Rightarrow> int64_t \<Rightarrow> nat" where
  "digit numBits denShift v = unat (signed_drop_bit denShift v AND (push_bit numBits 1 - 1))"

text \<open>
  One pass of a digit loop. \<open>which\<close> is 1 in the first digit loop (digits of the
  second element) and 0 in the second (digits of the first element). The pointer
  \<^verbatim>\<open>buckets\<close> is moved like \<^verbatim>\<open>start\<close> in the bucket sort; the model adds the
  displacement to the indices.

  \<^verbatim>\<open>buckets[j] = 0\<close> for \<open>j < numBuckets + 2\<close>; then, displaced by 2, the digit counts.
\<close>

definition radix_count :: "nat \<Rightarrow> nat \<Rightarrow> nat \<Rightarrow> nat \<Rightarrow> int64_t list \<Rightarrow> int list" where
  "radix_count numBits which len denShift copy1 =
     fold (\<lambda>j buckets. buckets[2 + digit numBits denShift (copy1 ! (j + which))
                             := buckets ! (2 + digit numBits denShift (copy1 ! (j + which))) + 2])
          (strided 0 len 2)
          (fold (\<lambda>j buckets. buckets[j := 0]) [0..<2 ^ numBits + 2] (replicate (2 ^ numBits + 2) 0))"

text \<open>\<^verbatim>\<open>for (j = 1; j < numBuckets; j++) buckets[j] += buckets[j-1]\<close>, displaced by 2.\<close>

definition radix_accumulate :: "nat \<Rightarrow> int list \<Rightarrow> int list" where
  "radix_accumulate numBits buckets =
     fold (\<lambda>j buckets. buckets[2 + j := buckets ! (2 + j) + buckets ! (2 + j - 1)]) [1..<2 ^ numBits] buckets"

text \<open>Moving the pairs from \<^verbatim>\<open>copy1\<close> to \<^verbatim>\<open>copy2\<close>, displaced by 1.\<close>

definition radix_move ::
    "nat \<Rightarrow> nat \<Rightarrow> nat \<Rightarrow> nat \<Rightarrow> int64_t list \<Rightarrow> int list \<times> int64_t list \<Rightarrow> int list \<times> int64_t list" where
  "radix_move numBits which len denShift copy1 =
     fold (\<lambda>j (buckets, copy2).
             let index = buckets ! (1 + digit numBits denShift (copy1 ! (j + which)))
             in (buckets[1 + digit numBits denShift (copy1 ! (j + which)) := index + 2],
                 copy2[nat index := copy1 ! j, nat index + 1 := copy1 ! (j + 1)]))
          (strided 0 len 2)"

text \<open>The pass: count, accumulate, move, and swap the two buffers.\<close>

fun radix_pass ::
    "nat \<Rightarrow> nat \<Rightarrow> nat \<Rightarrow> nat \<Rightarrow> int64_t list \<times> int64_t list \<Rightarrow> int64_t list \<times> int64_t list" where
  "radix_pass numBits which len denShift (copy1, copy2) =
     (snd (radix_move numBits which len denShift copy1
             (radix_accumulate numBits (radix_count numBits which len denShift copy1), copy2)),
      copy1)"

text \<open>
  \<^verbatim>\<open>for (i = 0; max != 0; max = max / numBuckets, i++)\<close> around the pass, with
  \<^verbatim>\<open>denShift += numBits\<close> after each pass. C's division truncates towards zero. The
  loop is skipped when \<^verbatim>\<open>max\<close> is 0. With \<open>numBits = 0\<close> the divisor is 1, and a loop
  that is entered does not end: the model has no value (\<open>None\<close>) then.
\<close>

function radix_loop ::
    "nat \<Rightarrow> nat \<Rightarrow> nat \<Rightarrow> int64_t \<Rightarrow> nat \<Rightarrow> int64_t list \<times> int64_t list
       \<Rightarrow> (int64_t list \<times> int64_t list) option" where
  "radix_loop numBits which len maxv denShift copies =
     (if maxv = 0 then Some copies
      else if numBits = 0 then None
      else radix_loop numBits which len (word_of_int (sint maxv sdiv 2 ^ numBits)) (denShift + numBits)
             (radix_pass numBits which len denShift copies))"
  by pat_completeness auto
termination
proof (relation "measure (\<lambda>(numBits, which, len, maxv, denShift, copies). nat \<bar>sint maxv\<bar>)")
  fix numBits which len :: nat and maxv :: int64_t and denShift :: nat
    and copies :: "int64_t list \<times> int64_t list"
  assume a: "maxv \<noteq> 0" "numBits \<noteq> 0"
  define k l where "k = sint maxv" and "l = (2::int) ^ numBits"
  from a have k: "k \<noteq> 0"
    by (simp add: k_def signed_eq_0_iff)
  from a have l: "2 \<le> l"
    using self_le_power [of "2::int" numBits] by (simp add: l_def)
  then have sl: "sgn l = 1" "\<bar>l\<bar> = l"
    by simp_all
  have "0 \<le> \<bar>k\<bar> div l"
    using l by (simp add: pos_imp_zdiv_nonneg_iff)
  then have "\<bar>k sdiv l\<bar> = \<bar>k\<bar> div l"
    using k by (simp add: signed_divide_int_def sl abs_mult abs_sgn_eq)
  also have "\<dots> < \<bar>k\<bar>"
    using k l by (simp add: int_div_less_self)
  finally have lt: "\<bar>k sdiv l\<bar> < \<bar>k\<bar>" .
  have "- (2 ^ 63) \<le> k" "k < 2 ^ 63"
    using sint_ge [of maxv] sint_lt [of maxv] by (simp_all add: k_def)
  then have "- (2 ^ 63) \<le> k sdiv l" "k sdiv l < 2 ^ 63"
    using lt by linarith+
  then have "sint (word_of_int (k sdiv l) :: int64_t) = k sdiv l"
    by (simp add: sint_sbintrunc' signed_take_bit_int_eq_self)
  with lt show "((numBits, which, len, word_of_int (sint maxv sdiv 2 ^ numBits) :: int64_t, denShift + numBits,
                  radix_pass numBits which len denShift copies),
                 (numBits, which, len, maxv, denShift, copies))
               \<in> measure (\<lambda>(numBits, which, len, maxv, denShift, copies). nat \<bar>sint maxv\<bar>)"
    by (simp add: k_def l_def)
qed simp

declare radix_loop.simps [simp del]

text \<open>The largest first element, starting from \<^verbatim>\<open>copy1[0]\<close>.\<close>

definition first_max :: "nat \<Rightarrow> int64_t list \<Rightarrow> int64_t" where
  "first_max len copy1 =
     fold (\<lambda>i maxv. if maxv <s copy1 ! i then copy1 ! i else maxv) (strided 0 len 2) (copy1 ! 0)"

text \<open>The second digit loop, on the first elements as they are.\<close>

definition radix_by_first ::
    "nat \<Rightarrow> nat \<Rightarrow> int64_t list \<times> int64_t list \<Rightarrow> (int64_t list \<times> int64_t list) option" where
  "radix_by_first numBits len copies = radix_loop numBits 0 len (first_max len (fst copies)) 0 copies"

text \<open>
  The end of the function: the second elements are shifted back by \<^verbatim>\<open>copy1[i+1] -= min\<close>
  and \<^verbatim>\<open>copy1\<close> is copied to \<^verbatim>\<open>x\<close>.
\<close>

definition radix_finish :: "int64_t list \<Rightarrow> nat \<Rightarrow> int64_t \<Rightarrow> int64_t list \<times> int64_t list \<Rightarrow> int64_t list" where
  "radix_finish x len d copies = copy_back len (shift_seconds len (- d) (fst copies)) x"

text \<open>
  After the first loop: \<^verbatim>\<open>min = -min; max += min\<close>, the second elements are shifted
  by \<^verbatim>\<open>min\<close>, and the first digit loop sorts by them; \<^verbatim>\<open>copy2\<close> is fresh memory. Then
  the second digit loop and the end of the function.
\<close>

fun radix_sort_scanned ::
    "int64_t list \<Rightarrow> nat \<Rightarrow> nat \<Rightarrow> int64_t list \<times> int64_t \<times> int64_t \<Rightarrow> int64_t list option" where
  "radix_sort_scanned x len numBits (copy1, maxv, minv) =
     map_option (radix_finish x len (- minv))
       (Option.bind (radix_loop numBits 1 len (maxv + (- minv)) 0
                       (shift_seconds len (- minv) copy1, replicate len 0))
                    (radix_by_first numBits len))"

text \<open>
  The whole function. \<open>None\<close> stands for a call that does not return or whose
  behaviour is undefined: a digit loop that is entered with \<open>numBits = 0\<close> (it does
  not end), \<open>numBits > 30\<close> (\<^verbatim>\<open>1 << numBits\<close> overflows \<^verbatim>\<open>int\<close>), an array with fewer
  than \<open>len\<close> elements or without the element \<^verbatim>\<open>x[1]\<close>, an odd \<open>len\<close>, or \<open>len = 0\<close>
  (\<^verbatim>\<open>copy1[0]\<close> is read from an allocation of no bytes).
\<close>

definition radix_sort_pairs :: "int64_t list \<Rightarrow> nat \<Rightarrow> nat \<Rightarrow> int64_t list option" where
  "radix_sort_pairs x len numBits =
     (if 30 < numBits \<or> length x < 2 \<or> len = 0 \<or> len mod 2 = 1 \<or> length x < len then None
      else radix_sort_scanned x len numBits (radix_scan x len))"

section \<open>Sorted CSR extraction\<close>

text \<open>
  \<^verbatim>\<open>stinger_to_sorted_csr\<close> (lines 440--481) first calls \<^verbatim>\<open>stinger_to_unsorted_csr\<close>,
  which fills the offset, neighbor and requested metadata arrays from the graph
  store through \<^verbatim>\<open>stinger_outdegree_get\<close> and \<^verbatim>\<open>stinger_gather_successors\<close> (not part
  of the sources). The arrays it returns are the input of the model; an optional
  output array that was not requested is \<open>None\<close>.
\<close>

record csr =
  off :: "nat list"
  ind :: "int64_t list"
  weights :: "int64_t list option"
  timefirst :: "int64_t list option"
  timerecent :: "int64_t list option"
  types :: "int64_t list option"

text \<open>
  \<^verbatim>\<open>copy_metadata_based_on_pointer_array\<close> (lines 409--418). A pointer into the neighbor
  array is the index of its target, so \<^verbatim>\<open>pointers[i] - base\<close> is a difference of
  indices.
\<close>

definition copy_metadata_based_on_pointer_array ::
    "nat \<Rightarrow> int64_t list \<Rightarrow> nat \<Rightarrow> nat list \<Rightarrow> nat \<Rightarrow> int64_t list \<Rightarrow> int64_t list \<times> int64_t list" where
  "copy_metadata_based_on_pointer_array cnt metadata offset pointers base buffer =
     (let buffer = fold (\<lambda>i buffer. buffer[i := metadata ! (offset + (pointers ! i - base))])
                        [0..<cnt] buffer;
          metadata = fold (\<lambda>i metadata. metadata[i + offset := buffer ! i]) [0..<cnt] metadata
      in (metadata, buffer))"

text \<open>\<^verbatim>\<open>if (weight_out) copy_metadata_based_on_pointer_array (...)\<close>, and likewise for the others.\<close>

definition copy_optional ::
    "nat \<Rightarrow> nat \<Rightarrow> nat list \<Rightarrow> int64_t list option \<times> int64_t list \<Rightarrow> int64_t list option \<times> int64_t list" where
  "copy_optional degree start_offset pointers = (\<lambda>(metadata_out, tmp_buffer).
     case metadata_out of
       None \<Rightarrow> (None, tmp_buffer)
     | Some metadata \<Rightarrow>
         (let (metadata, tmp_buffer) =
                copy_metadata_based_on_pointer_array degree metadata start_offset pointers
                  start_offset tmp_buffer
          in (Some metadata, tmp_buffer)))"

text \<open>The body of the loop over the vertices, for vertex \<open>i\<close>.\<close>

definition sort_vertex :: "nat \<Rightarrow> csr \<Rightarrow> csr" where
  "sort_vertex i c =
     (let start_offset = off c ! i;
          degree = off c ! (i + 1) - start_offset;
          pointers = fold (\<lambda>j pointers. pointers[j := start_offset + j]) [0..<degree]
                          (replicate degree 0);
          pointers = qsort (csr_cmp (ind c)) pointers;
          tmp_buffer = fold (\<lambda>j tmp_buffer. tmp_buffer[j := ind c ! (pointers ! j)]) [0..<degree]
                            (replicate degree 0);
          ind' = fold (\<lambda>j ind'. ind'[start_offset + j := tmp_buffer ! j]) [0..<degree] (ind c);
          (weight', tmp_buffer) = copy_optional degree start_offset pointers (weights c, tmp_buffer);
          (timefirst', tmp_buffer) = copy_optional degree start_offset pointers (timefirst c, tmp_buffer);
          (timerecent', tmp_buffer) = copy_optional degree start_offset pointers (timerecent c, tmp_buffer);
          (type', tmp_buffer) = copy_optional degree start_offset pointers (types c, tmp_buffer)
      in c\<lparr>ind := ind', weights := weight', timefirst := timefirst', timerecent := timerecent',
            types := type'\<rparr>)"

text \<open>
  What \<^verbatim>\<open>stinger_to_unsorted_csr\<close> hands over: \<open>nv + 1\<close> ascending offsets, the last
  one being the length of the neighbor array and of every requested metadata array.
\<close>

definition has_length :: "nat \<Rightarrow> int64_t list option \<Rightarrow> bool" where
  "has_length n metadata_out = (case metadata_out of None \<Rightarrow> True | Some metadata \<Rightarrow> length metadata = n)"

definition csr_ok :: "nat \<Rightarrow> csr \<Rightarrow> bool" where
  "csr_ok nv c \<longleftrightarrow>
     length (off c) = nv + 1
     \<and> list_all (\<lambda>i. off c ! i \<le> off c ! (i + 1)) [0..<nv]
     \<and> length (ind c) = off c ! nv
     \<and> has_length (off c ! nv) (weights c) \<and> has_length (off c ! nv) (timefirst c)
     \<and> has_length (off c ! nv) (timerecent c) \<and> has_length (off c ! nv) (types c)"

definition stinger_to_sorted_csr :: "nat \<Rightarrow> csr \<Rightarrow> csr option" where
  "stinger_to_sorted_csr nv unsorted =
     (if csr_ok nv unsorted then Some (fold sort_vertex [0..<nv] unsorted) else None)"

section \<open>Edge list to CSR\<close>

text \<open>
  \<^verbatim>\<open>edge_list_to_csr\<close> (lines 652--694), loop by loop. The function moves its
  parameter \<^verbatim>\<open>offset\<close> by \<^verbatim>\<open>offset += 2\<close> and \<^verbatim>\<open>offset--\<close>; the model keeps the
  caller's array of \<open>nv + 2\<close> entries and adds the displacement (2, then 1) to the
  indices. The entries of \<^verbatim>\<open>offset\<close> are numbers of edges, at most \<open>ne\<close>, and are kept
  as natural numbers. A source vertex is used as an index through \<open>unat\<close>.

  \<^verbatim>\<open>offset[i] = 0\<close> for \<open>i < nv + 2\<close>, then the histogram of the source vertices with
  the displacement 2.
\<close>

definition csr_histogram :: "nat \<Rightarrow> nat \<Rightarrow> int64_t list \<Rightarrow> nat list \<Rightarrow> nat list" where
  "csr_histogram nv ne sv1 offset =
     fold (\<lambda>i offset. offset[2 + unat (sv1 ! i) := offset ! (2 + unat (sv1 ! i)) + 1]) [0..<ne]
          (fold (\<lambda>i offset. offset[i := 0]) [0..<nv + 2] offset)"

text \<open>\<^verbatim>\<open>for (i = 1; i < nv; i++) offset[i] += offset[i - 1]\<close>, with the displacement 2.\<close>

definition csr_accumulate :: "nat \<Rightarrow> nat list \<Rightarrow> nat list" where
  "csr_accumulate nv offset =
     fold (\<lambda>i offset. offset[2 + i := offset ! (2 + i) + offset ! (2 + i - 1)]) [1..<nv] offset"

text \<open>
  The loop that fills the output arrays, with the displacement 1.
  \<^verbatim>\<open>stinger_int64_fetch_add\<close> returns the old value of the entry and adds 1 to it; the
  iterations of the parallel loop are run in index order. Without timestamps:
\<close>

definition csr_scatter ::
    "nat \<Rightarrow> int64_t list \<Rightarrow> int64_t list \<Rightarrow> int64_t list
       \<Rightarrow> nat list \<times> int64_t list \<times> int64_t list \<Rightarrow> nat list \<times> int64_t list \<times> int64_t list" where
  "csr_scatter ne sv1 ev1 w1 =
     fold (\<lambda>i (offset, ev2, w2).
             let index = offset ! (1 + unat (sv1 ! i))
             in (offset[1 + unat (sv1 ! i) := index + 1], ev2[index := ev1 ! i], w2[index := w1 ! i]))
          [0..<ne]"

text \<open>With both timestamp arrays:\<close>

definition csr_scatter_times ::
    "nat \<Rightarrow> int64_t list \<Rightarrow> int64_t list \<Rightarrow> int64_t list \<Rightarrow> int64_t list \<Rightarrow> int64_t list
       \<Rightarrow> nat list \<times> int64_t list \<times> int64_t list \<times> int64_t list \<times> int64_t list
       \<Rightarrow> nat list \<times> int64_t list \<times> int64_t list \<times> int64_t list \<times> int64_t list" where
  "csr_scatter_times ne sv1 ev1 w1 timeRecent timeFirst =
     fold (\<lambda>i (offset, ev2, w2, t2, t1).
             let index = offset ! (1 + unat (sv1 ! i))
             in (offset[1 + unat (sv1 ! i) := index + 1], ev2[index := ev1 ! i], w2[index := w1 ! i],
                 t2[index := timeRecent ! i], t1[index := timeFirst ! i]))
          [0..<ne]"

text \<open>
  The arrays the caller sees afterwards: \<^verbatim>\<open>offset\<close> (from its first entry), \<^verbatim>\<open>ev2\<close>,
  \<^verbatim>\<open>w2\<close>, \<^verbatim>\<open>t2\<close> and \<^verbatim>\<open>t1\<close>.
\<close>

record csr_arrays =
  offset_arr :: "nat list"
  ev2_arr :: "int64_t list"
  w2_arr :: "int64_t list"
  t2_arr :: "int64_t list"
  t1_arr :: "int64_t list"

fun csr_result3 :: "int64_t list \<Rightarrow> int64_t list \<Rightarrow> nat list \<times> int64_t list \<times> int64_t list \<Rightarrow> csr_arrays" where
  "csr_result3 t2 t1 (offset, ev2, w2) =
     \<lparr>offset_arr = offset, ev2_arr = ev2, w2_arr = w2, t2_arr = t2, t1_arr = t1\<rparr>"

fun csr_result5 :: "nat list \<times> int64_t list \<times> int64_t list \<times> int64_t list \<times> int64_t list \<Rightarrow> csr_arrays" where
  "csr_result5 (offset, ev2, w2, t2, t1) =
     \<lparr>offset_arr = offset, ev2_arr = ev2, w2_arr = w2, t2_arr = t2, t1_arr = t1\<rparr>"

text \<open>
  The contract of the function: the input arrays hold \<open>ne\<close> edges whose source
  vertices lie in \<open>0..nv-1\<close>, \<^verbatim>\<open>offset\<close> has \<open>nv + 2\<close> entries and the output arrays have
  \<open>ne\<close>. A timestamp array that is \<^verbatim>\<open>NULL\<close> is \<open>None\<close>.
\<close>

definition long_enough :: "nat \<Rightarrow> int64_t list option \<Rightarrow> bool" where
  "long_enough ne ts = (case ts of None \<Rightarrow> True | Some t \<Rightarrow> ne \<le> length t)"

definition edge_list_ok ::
    "nat \<Rightarrow> nat \<Rightarrow> int64_t list \<Rightarrow> int64_t list \<Rightarrow> int64_t list \<Rightarrow> int64_t list option \<Rightarrow> int64_t list option
       \<Rightarrow> csr_arrays \<Rightarrow> bool" where
  "edge_list_ok nv ne sv1 ev1 w1 timeRecent timeFirst out \<longleftrightarrow>
     ne \<le> length sv1 \<and> ne \<le> length ev1 \<and> ne \<le> length w1
     \<and> list_all (\<lambda>s. unat s < nv) (take ne sv1)
     \<and> length (offset_arr out) = nv + 2 \<and> ne \<le> length (ev2_arr out) \<and> ne \<le> length (w2_arr out)
     \<and> long_enough ne timeRecent \<and> long_enough ne timeFirst
     \<and> (timeRecent \<noteq> None \<and> timeFirst \<noteq> None \<longrightarrow> ne \<le> length (t2_arr out) \<and> ne \<le> length (t1_arr out))"

text \<open>
  The whole function; \<open>out\<close> holds the output arrays as the caller passes them.
  \<open>None\<close> stands for a call outside the contract.
\<close>

fun edge_list_to_csr_times ::
    "nat \<Rightarrow> nat \<Rightarrow> int64_t list \<Rightarrow> int64_t list \<Rightarrow> int64_t list \<Rightarrow> int64_t list option \<Rightarrow> int64_t list option
       \<Rightarrow> csr_arrays \<Rightarrow> nat list \<Rightarrow> csr_arrays" where
  "edge_list_to_csr_times nv ne sv1 ev1 w1 (Some timeRecent) (Some timeFirst) out offset =
     csr_result5 (csr_scatter_times ne sv1 ev1 w1 timeRecent timeFirst
                    (offset, ev2_arr out, w2_arr out, t2_arr out, t1_arr out))"
| "edge_list_to_csr_times nv ne sv1 ev1 w1 timeRecent timeFirst out offset =
     csr_result3 (t2_arr out) (t1_arr out) (csr_scatter ne sv1 ev1 w1 (offset, ev2_arr out, w2_arr out))"

definition edge_list_to_csr ::
    "nat \<Rightarrow> nat \<Rightarrow> int64_t list \<Rightarrow> int64_t list \<Rightarrow> int64_t list \<Rightarrow> int64_t list option \<Rightarrow> int64_t list option
       \<Rightarrow> csr_arrays \<Rightarrow> csr_arrays option" where
  "edge_list_to_csr nv ne sv1 ev1 w1 timeRecent timeFirst out =
     (if edge_list_ok nv ne sv1 ev1 w1 timeRecent timeFirst out
      then Some (edge_list_to_csr_times nv ne sv1 ev1 w1 timeRecent timeFirst out
                   (csr_accumulate nv (csr_histogram nv ne sv1 (offset_arr out))))
      else None)"

text \<open>
  The edge list that was passed in, and the edge list read back from the arrays:
  vertex \<open>v\<close> with every entry between \<open>offset[v]\<close> and \<open>offset[v + 1]\<close>.
\<close>

definition edge_list :: "nat \<Rightarrow> int64_t list \<Rightarrow> int64_t list \<Rightarrow> int64_t list \<Rightarrow> (int64_t \<times> int64_t \<times> int64_t) list" where
  "edge_list ne sv1 ev1 w1 = map (\<lambda>i. (sv1 ! i, ev1 ! i, w1 ! i)) [0..<ne]"

definition csr_to_edge_list :: "nat \<Rightarrow> csr_arrays \<Rightarrow> (int64_t \<times> int64_t \<times> int64_t) list" where
  "csr_to_edge_list nv c =
     concat (map (\<lambda>v. map (\<lambda>j. (word_of_nat v, ev2_arr c ! j, w2_arr c ! j))
                           [offset_arr c ! v..<offset_arr c ! (v + 1)])
                 [0..<nv])"

section \<open>Bookkeeping for the counting loops\<close>

text \<open>The notions in which the loops of \<open>edge_list_to_csr\<close> are described.\<close>

text \<open>How often the key \<open>v\<close> occurs among the first \<open>m\<close> indices.\<close>

definition occurrences :: "(nat \<Rightarrow> nat) \<Rightarrow> nat \<Rightarrow> nat \<Rightarrow> nat" where
  "occurrences key m v = length (filter (\<lambda>i. key i = v) [0..<m])"

text \<open>The first index of the bucket of vertex \<open>v\<close>: the number of edges with a smaller source.\<close>

definition bucket_start :: "(nat \<Rightarrow> nat) \<Rightarrow> nat \<Rightarrow> nat \<Rightarrow> nat" where
  "bucket_start key ne v = (\<Sum>u<v. occurrences key ne u)"

text \<open>
  The state of the filling loop after \<open>m\<close> edges: the running offset of every vertex
  has advanced by the number of its edges seen so far, and these edges stand in its
  bucket in the order in which they were seen.
\<close>

definition filled ::
    "(nat \<Rightarrow> nat) \<Rightarrow> nat \<Rightarrow> nat \<Rightarrow> 'a list \<Rightarrow> 'b list \<Rightarrow> nat \<Rightarrow> nat list \<times> 'a list \<times> 'b list \<Rightarrow> bool" where
  "filled key nv ne ev1 w1 m st \<longleftrightarrow>
     (case st of (offs, e, w) \<Rightarrow>
        length offs = nv + 2 \<and> ne \<le> length e \<and> ne \<le> length w \<and> offs ! 0 = 0
        \<and> (\<forall>v\<le>nv. offs ! (1 + v) = bucket_start key ne v + (if v < nv then occurrences key m v else 0))
        \<and> (\<forall>v<nv. \<forall>t<occurrences key m v.
               e ! (bucket_start key ne v + t) = ev1 ! (filter (\<lambda>i. key i = v) [0..<m] ! t)
             \<and> w ! (bucket_start key ne v + t) = w1 ! (filter (\<lambda>i. key i = v) [0..<m] ! t)))"

section \<open>Loading a graph snapshot\<close>

text \<open>
  \<^verbatim>\<open>snarf_graph\<close> (lines 189--267) reads a whole file into memory. What the file
  system answers is the input of the model: \<^verbatim>\<open>stat\<close> fails, or it reports a size
  and then \<^verbatim>\<open>open\<close> or \<^verbatim>\<open>xread\<close> fails, or the file is read: its 64-bit words in the
  byte order of the machine, followed by up to seven bytes that do not fill a word.
\<close>

record snapshot_bytes =
  file_words :: "int64_t list"
  trailing_bytes :: nat

datatype snapshot_io = Stat_fails | Open_fails nat | Read_fails nat | File_read snapshot_bytes

definition st_size :: "snapshot_bytes \<Rightarrow> nat" where
  "st_size f = 8 * length (file_words f) + trailing_bytes f"

text \<open>
  Every \<^verbatim>\<open>abort ()\<close> of the function is an \<open>Abort\<close> with the diagnostic printed before
  it. \<open>Undefined_read\<close> is a file with fewer than three words, for which \<^verbatim>\<open>mem[1]\<close> or
  \<^verbatim>\<open>mem[2]\<close> lies outside the allocated block.
\<close>

datatype snarf_error = Abort string | Undefined_read

text \<open>
  The outputs: \<^verbatim>\<open>*nv_out\<close>, \<^verbatim>\<open>*ne_out\<close>, the three pointers into the block as indices
  (\<^verbatim>\<open>&mem[3]\<close>, \<^verbatim>\<open>&mem[3 + nv + 1]\<close>, \<^verbatim>\<open>&mem[3 + nv + 1 + ne]\<close>), and the block.
\<close>

record snarfed_graph =
  nv_out :: int64_t
  ne_out :: int64_t
  off_out :: int
  ind_out :: int
  weight_out :: int
  mem_handle :: "int64_t list"

text \<open>
  After the read: the words are byte-swapped when the first one is not
  \<^verbatim>\<open>0x1234ABCD\<close>, and the header is taken from \<^verbatim>\<open>mem[1]\<close> and \<^verbatim>\<open>mem[2]\<close>. The
  comparison of the file size with \<^verbatim>\<open>(3 + (nv + 1) + 2 * ne) * sizeof (*mem)\<close> stands
  between \<^verbatim>\<open>#if 0\<close> and \<^verbatim>\<open>#endif\<close> in the source and is not compiled.
\<close>

definition decode_snapshot :: "int64_t list \<Rightarrow> snarf_error + snarfed_graph" where
  "decode_snapshot mem =
     (if length mem < 3 then Inl Undefined_read
      else Inr \<lparr>nv_out = mem ! 1, ne_out = mem ! 2,
                off_out = 3,
                ind_out = 3 + sint (mem ! 1) + 1,
                weight_out = 3 + sint (mem ! 1) + 1 + sint (mem ! 2),
                mem_handle = mem\<rparr>)"

definition swap_if_foreign :: "int64_t list \<Rightarrow> int64_t list option" where
  "swap_if_foreign mem =
     (if mem = [] then None
      else if mem ! 0 \<noteq> 0x1234ABCD then bs64_n (length mem) mem
      else Some mem)"

fun snarf_graph :: "snapshot_io \<Rightarrow> snarf_error + snarfed_graph" where
  "snarf_graph Stat_fails = Inl (Abort ''Couldn't stat initial graph'')"
| "snarf_graph (Open_fails sz) =
     (if sz mod 8 \<noteq> 0
      then Inl (Abort ''graph file size is not a multiple of sizeof (int64_t)'')
      else Inl (Abort ''Error opening initial graph''))"
| "snarf_graph (Read_fails sz) =
     (if sz mod 8 \<noteq> 0
      then Inl (Abort ''graph file size is not a multiple of sizeof (int64_t)'')
      else Inl (Abort ''Error reading initial graph''))"
| "snarf_graph (File_read f) =
     (if st_size f mod 8 \<noteq> 0
      then Inl (Abort ''graph file size is not a multiple of sizeof (int64_t)'')
      else case swap_if_foreign (file_words f) of
             None \<Rightarrow> Inl Undefined_read
           | Some mem \<Rightarrow> decode_snapshot mem)"

text \<open>
  The size in words that the header of a loaded snapshot announces:
  \<open>3 + (nv + 1) + 2 * ne\<close>.
\<close>

definition announced_words :: "snarfed_graph \<Rightarrow> int" where
  "announced_words g = 3 + (sint (nv_out g) + 1) + 2 * sint (ne_out g)"

section \<open>Sorting the adjacency list of a vertex\<close>

text \<open>
  Modelled from the spec: \<^verbatim>\<open>struct stinger_edge\<close>, \<^verbatim>\<open>struct stinger_eb\<close> and the block
  pool are declared in headers that are not part of the sources. The spec's data
  model gives an edge a neighbor id, a weight and two timestamps, and a block a
  fixed-capacity array of edges, an edge type, the index of the next block of the
  chain in the pool (the field \<^verbatim>\<open>next\<close>, here \<open>next_block\<close>; 0 ends the chain), and the cached \<open>numEdges\<close>, \<open>high\<close>,
  \<open>smallStamp\<close> and \<open>largeStamp\<close>. The capacity \<^verbatim>\<open>STINGER_EDGEBLOCKSIZE\<close> is the
  parameter \<open>ebs\<close> of the model.
\<close>

record stinger_edge =
  neighbor :: int64_t
  weight :: int64_t
  timeFirst :: int64_t
  timeRecent :: int64_t

record stinger_eb =
  next_block :: nat
  etype :: int64_t
  numEdges :: int64_t
  high :: int64_t
  smallStamp :: int64_t
  largeStamp :: int64_t
  edges :: "stinger_edge list"

type_synonym ebpool = "stinger_eb list"

text \<open>
  Modelled from the spec: \<^verbatim>\<open>stinger_eb_is_blank\<close> is not part of the sources. The spec
  calls a slot whose neighbor is \<open>-1\<close> a tombstone, a deleted slot that can be used
  again.
\<close>

definition stinger_eb_is_blank :: "stinger_eb \<Rightarrow> nat \<Rightarrow> bool" where
  "stinger_eb_is_blank eb i \<longleftrightarrow> neighbor (edges eb ! i) = - 1"

text \<open>
  \<^verbatim>\<open>stinger_sort_edge_list\<close> (lines 765--864). The state of the sorting loops is the
  pool and the flag \<^verbatim>\<open>sorted\<close> (\<open>sorted_flag\<close>).

  The comparison and exchange of the slots \<open>i\<close> and \<open>i + 1\<close> of block \<open>cur\<close>
  (lines 786--791 and 811--816).
\<close>

fun swap_within :: "nat \<Rightarrow> nat \<Rightarrow> ebpool \<times> bool \<Rightarrow> ebpool \<times> bool" where
  "swap_within cur i (pool, sorted_flag) =
     (if neighbor (edges (pool ! cur) ! (i + 1)) <s neighbor (edges (pool ! cur) ! i)
      then (pool[cur := (pool ! cur)\<lparr>edges := (edges (pool ! cur))
                                          [i + 1 := edges (pool ! cur) ! i,
                                           i := edges (pool ! cur) ! (i + 1)]\<rparr>],
            False)
      else (pool, sorted_flag))"

text \<open>
  The comparison and exchange of the last slot of block \<open>cur\<close> with slot 0 of the
  next block, when there is a next block and it has the type that is being sorted
  (lines 793--800 and 818--825). The two assignments are made one after the other,
  as in the source.
\<close>

definition put_edge :: "nat \<Rightarrow> nat \<Rightarrow> stinger_edge \<Rightarrow> ebpool \<Rightarrow> ebpool" where
  "put_edge b i e pool = pool[b := (pool ! b)\<lparr>edges := (edges (pool ! b))[i := e]\<rparr>]"

fun swap_across :: "int64_t \<Rightarrow> nat \<Rightarrow> nat \<Rightarrow> ebpool \<times> bool \<Rightarrow> ebpool \<times> bool" where
  "swap_across ty cur i (pool, sorted_flag) =
     (if next_block (pool ! cur) \<noteq> 0 \<and> etype (pool ! next_block (pool ! cur)) = ty
         \<and> neighbor (edges (pool ! next_block (pool ! cur)) ! 0) <s neighbor (edges (pool ! cur) ! i)
      then (put_edge cur i (edges (pool ! next_block (pool ! cur)) ! 0)
              (put_edge (next_block (pool ! cur)) 0 (edges (pool ! cur) ! i) pool),
            False)
      else (pool, sorted_flag))"

text \<open>
  \<^verbatim>\<open>for (i = first; i < STINGER_EDGEBLOCKSIZE; i += 2)\<close> on block \<open>cur\<close>, with
  \<open>first = 1\<close> in the first half of a round and \<open>first = 0\<close> in the second.
\<close>

definition block_pass :: "nat \<Rightarrow> int64_t \<Rightarrow> nat \<Rightarrow> nat \<Rightarrow> ebpool \<times> bool \<Rightarrow> ebpool \<times> bool" where
  "block_pass ebs ty first cur =
     fold (\<lambda>i st. if i < ebs - 1 then swap_within cur i st else swap_across ty cur i st)
          (strided first ebs 2)"

text \<open>
  \<^verbatim>\<open>while (cur_eb != ebpool_priv && cur_eb->etype == type) { body; cur_eb = ebpool_priv + cur_eb->next; }\<close>,
  the loop that the function runs three times with different bodies. On a chain that
  runs in a circle through blocks of the type the loop does not end, and the model
  has no value (\<open>None\<close>); an index outside the pool is an undefined read, \<open>None\<close> too.
\<close>

partial_function (option) walk_chain ::
    "(nat \<Rightarrow> ebpool \<times> bool \<Rightarrow> ebpool \<times> bool) \<Rightarrow> int64_t \<Rightarrow> nat \<Rightarrow> ebpool \<times> bool \<Rightarrow> (ebpool \<times> bool) option" where
  "walk_chain body ty cur st =
     (if cur = 0 then Some st
      else if length (fst st) \<le> cur then None
      else if etype (fst st ! cur) \<noteq> ty then Some st
      else walk_chain body ty (next_block (fst (body cur st) ! cur)) (body cur st))"

declare walk_chain.simps [code]

text \<open>
  \<^verbatim>\<open>while (start != ebpool_priv && start->etype != type) start = ebpool_priv + start->next\<close>
  (lines 775--777): the first block of the type in the chain of the vertex.
\<close>

partial_function (option) find_start :: "ebpool \<Rightarrow> int64_t \<Rightarrow> nat \<Rightarrow> nat option" where
  "find_start pool ty start =
     (if start = 0 then Some 0
      else if length pool \<le> start then None
      else if etype (pool ! start) = ty then Some start
      else find_start pool ty (next_block (pool ! start)))"

declare find_start.simps [code]

text \<open>
  \<^verbatim>\<open>while (!sorted)\<close> (lines 779--830): a round sets \<^verbatim>\<open>sorted = 1\<close>, walks the chain
  exchanging from the odd slots and walks it again exchanging from the even slots.
\<close>

partial_function (option) sort_rounds :: "nat \<Rightarrow> int64_t \<Rightarrow> nat \<Rightarrow> ebpool \<Rightarrow> ebpool option" where
  "sort_rounds ebs ty start pool =
     Option.bind (walk_chain (block_pass ebs ty 1) ty start (pool, True)) (\<lambda>st.
     Option.bind (walk_chain (block_pass ebs ty 0) ty start st) (\<lambda>st.
       if snd st then Some (fst st) else sort_rounds ebs ty start (fst st)))"

declare sort_rounds.simps [code]

text \<open>
  The loop over the slots of a block in the last part (lines 839--856). The state is
  the block, \<^verbatim>\<open>curLargeTS\<close>, \<^verbatim>\<open>curSmallTS\<close>, \<^verbatim>\<open>curNumEdges\<close> and \<^verbatim>\<open>curHigh\<close>. The
  comparison \<^verbatim>\<open>i > curHigh\<close> is one of unsigned values.
\<close>

fun summarize_slot ::
    "nat \<Rightarrow> stinger_eb \<times> int64_t \<times> int64_t \<times> int64_t \<times> int64_t
         \<Rightarrow> stinger_eb \<times> int64_t \<times> int64_t \<times> int64_t \<times> int64_t" where
  "summarize_slot i (eb, curLargeTS, curSmallTS, curNumEdges, curHigh) =
     (if \<not> stinger_eb_is_blank eb i
      then if neighbor (edges eb ! i) = 0 \<and> weight (edges eb ! i) = 0
              \<and> timeFirst (edges eb ! i) = 0 \<and> timeRecent (edges eb ! i) = 0
           then (eb\<lparr>edges := (edges eb)[i := (edges eb ! i)\<lparr>neighbor := - 1\<rparr>]\<rparr>,
                 curLargeTS, curSmallTS, curNumEdges, curHigh)
           else (eb,
                 if curLargeTS <s timeRecent (edges eb ! i) then timeRecent (edges eb ! i) else curLargeTS,
                 if timeFirst (edges eb ! i) <s curSmallTS then timeFirst (edges eb ! i) else curSmallTS,
                 curNumEdges + 1,
                 if curHigh < word_of_nat i then word_of_nat i else curHigh)
      else (eb, curLargeTS, curSmallTS, curNumEdges, curHigh))"

text \<open>
  The body of the last walk (lines 834--862): the slots are summarized starting from
  \<^verbatim>\<open>INT64_MIN\<close>, \<^verbatim>\<open>INT64_MAX\<close>, 0 and 0, and the cached fields are stored.
\<close>

fun store_summary :: "stinger_eb \<times> int64_t \<times> int64_t \<times> int64_t \<times> int64_t \<Rightarrow> stinger_eb" where
  "store_summary (eb, curLargeTS, curSmallTS, curNumEdges, curHigh) =
     eb\<lparr>high := curHigh + 1, numEdges := curNumEdges, largeStamp := curLargeTS, smallStamp := curSmallTS\<rparr>"

definition summarize_block :: "nat \<Rightarrow> nat \<Rightarrow> ebpool \<times> bool \<Rightarrow> ebpool \<times> bool" where
  "summarize_block ebs cur st =
     ((fst st)[cur := store_summary
                        (fold summarize_slot [0..<ebs]
                           (fst st ! cur, - (2 ^ 63), 2 ^ 63 - 1, 0, 0))],
      snd st)"

text \<open>
  The whole function. \<open>head\<close> is what \<^verbatim>\<open>stinger_vertex_edges_get (vertices, srcvtx)\<close>
  returns, the index of the first block of the vertex (the vertex table is not part
  of the sources).
\<close>

definition stinger_sort_edge_list :: "nat \<Rightarrow> ebpool \<Rightarrow> nat \<Rightarrow> int64_t \<Rightarrow> ebpool option" where
  "stinger_sort_edge_list ebs pool head ty =
     Option.bind (find_start pool ty head) (\<lambda>start.
     Option.bind (sort_rounds ebs ty start pool) (\<lambda>pool.
     map_option fst (walk_chain (summarize_block ebs) ty start (pool, True))))"

section \<open>Sorting the adjacency list of a vertex: the chain as one array\<close>

text \<open>
  The notions in which the result of \<open>stinger_sort_edge_list\<close> is stated and proved.
\<close>

text \<open>The blocks that a walk from \<open>cur\<close> visits.\<close>

fun run :: "ebpool \<Rightarrow> int64_t \<Rightarrow> nat \<Rightarrow> nat list \<Rightarrow> bool" where
  "run pool ty cur [] \<longleftrightarrow> cur = 0 \<or> (cur < length pool \<and> etype (pool ! cur) \<noteq> ty)"
| "run pool ty cur (b # bs) \<longleftrightarrow>
     cur = b \<and> b \<noteq> 0 \<and> b < length pool \<and> etype (pool ! b) = ty \<and> run pool ty (next_block (pool ! b)) bs"

text \<open>The blocks of other types that \<open>find_start\<close> passes before it stops at \<open>start\<close>.\<close>

fun skipped :: "ebpool \<Rightarrow> int64_t \<Rightarrow> nat \<Rightarrow> nat list \<Rightarrow> nat \<Rightarrow> bool" where
  "skipped pool ty cur [] start \<longleftrightarrow>
     cur = start \<and> (start = 0 \<or> (start < length pool \<and> etype (pool ! start) = ty))"
| "skipped pool ty cur (b # bs) start \<longleftrightarrow>
     cur = b \<and> b \<noteq> 0 \<and> b < length pool \<and> etype (pool ! b) \<noteq> ty
     \<and> skipped pool ty (next_block (pool ! b)) bs start"

text \<open>The links of the pool: what the walks follow and no loop of the function changes.\<close>

definition links :: "ebpool \<Rightarrow> (nat \<times> int64_t) list" where
  "links pool = map (\<lambda>eb. (next_block eb, etype eb)) pool"

text \<open>The slots of the blocks \<open>bs\<close>, read as one array.\<close>

definition slots :: "ebpool \<Rightarrow> nat list \<Rightarrow> stinger_edge list" where
  "slots pool bs = concat (map (\<lambda>b. edges (pool ! b)) bs)"

definition neighbor_ids :: "ebpool \<Rightarrow> nat list \<Rightarrow> int list" where
  "neighbor_ids pool bs = map (\<lambda>e. sint (neighbor e)) (slots pool bs)"

text \<open>
  Two neighbouring slots of the array that stand in the wrong order are exchanged.
\<close>

definition transposed :: "stinger_edge list \<Rightarrow> stinger_edge list \<Rightarrow> bool" where
  "transposed xs ys \<longleftrightarrow>
     (\<exists>as a b cs. xs = as @ a # b # cs \<and> ys = as @ b # a # cs \<and> neighbor b <s neighbor a)"

text \<open>
  What an exchange uses up: every slot weighs its distance from the largest id, times
  its position in the array.
\<close>

definition slack :: "stinger_edge \<Rightarrow> nat" where
  "slack e = nat (2 ^ 63 - 1 - sint (neighbor e))"

fun disorder :: "nat \<Rightarrow> stinger_edge list \<Rightarrow> nat" where
  "disorder k [] = 0"
| "disorder k (e # es) = k * slack e + disorder (Suc k) es"

text \<open>What the rounds keep: the chain and the size of its blocks.\<close>

definition chain_inv :: "nat \<Rightarrow> int64_t \<Rightarrow> nat \<Rightarrow> nat list \<Rightarrow> ebpool \<Rightarrow> bool" where
  "chain_inv ebs ty start bs pool \<longleftrightarrow>
     run pool ty start bs \<and> distinct bs \<and> 0 < ebs \<and> (\<forall>b\<in>set bs. length (edges (pool ! b)) = ebs)"

text \<open>
  What a step of a round does to the state: nothing, or it clears the flag and
  exchanges slots of the chain, which lowers the disorder.
\<close>

definition progress :: "nat list \<Rightarrow> ebpool \<times> bool \<Rightarrow> ebpool \<times> bool \<Rightarrow> bool" where
  "progress bs st st' \<longleftrightarrow>
     st' = st
     \<or> (\<not> snd st' \<and> links (fst st') = links (fst st)
        \<and> (\<forall>b\<in>set bs. length (edges (fst st' ! b)) = length (edges (fst st ! b)))
        \<and> mset (slots (fst st') bs) = mset (slots (fst st) bs)
        \<and> disorder 0 (slots (fst st') bs) < disorder 0 (slots (fst st) bs))"

text \<open>The step of a pass at slot \<open>i\<close> of block \<open>cur\<close>, and all the steps of a pass in their order.\<close>

definition slot_step :: "nat \<Rightarrow> int64_t \<Rightarrow> nat \<Rightarrow> nat \<Rightarrow> ebpool \<times> bool \<Rightarrow> ebpool \<times> bool" where
  "slot_step ebs ty cur i = (if i < ebs - 1 then swap_within cur i else swap_across ty cur i)"

definition pass_steps :: "nat \<Rightarrow> int64_t \<Rightarrow> nat \<Rightarrow> nat list \<Rightarrow> (ebpool \<times> bool \<Rightarrow> ebpool \<times> bool) list" where
  "pass_steps ebs ty first bs = concat (map (\<lambda>b. map (slot_step ebs ty b) (strided first ebs 2)) bs)"

text \<open>
  The slots of block \<open>b\<close> stand in ascending order, and so do its last slot and the first
  slot of the next block of the chain.
\<close>

definition in_order :: "nat \<Rightarrow> int64_t \<Rightarrow> ebpool \<Rightarrow> nat \<Rightarrow> bool" where
  "in_order ebs ty pool b \<longleftrightarrow>
     (\<forall>i. Suc i < ebs \<longrightarrow> sint (neighbor (edges (pool ! b) ! i)) \<le> sint (neighbor (edges (pool ! b) ! Suc i)))
     \<and> (next_block (pool ! b) \<noteq> 0 \<and> etype (pool ! next_block (pool ! b)) = ty \<longrightarrow>
          sint (neighbor (edges (pool ! b) ! (ebs - 1)))
            \<le> sint (neighbor (edges (pool ! next_block (pool ! b)) ! 0)))"

definition round_steps :: "nat \<Rightarrow> int64_t \<Rightarrow> nat list \<Rightarrow> (ebpool \<times> bool \<Rightarrow> ebpool \<times> bool) list" where
  "round_steps ebs ty bs = pass_steps ebs ty 1 bs @ pass_steps ebs ty 0 bs"

text \<open>
  A slot that the last walk takes for dead, all four fields being zero, and what the
  walk does to a slot: the neighbor of a dead slot becomes \<open>-1\<close>.
\<close>

definition dead_slot :: "stinger_edge \<Rightarrow> bool" where
  "dead_slot e \<longleftrightarrow> neighbor e = 0 \<and> weight e = 0 \<and> timeFirst e = 0 \<and> timeRecent e = 0"

definition retire :: "stinger_edge \<Rightarrow> stinger_edge" where
  "retire e = (if dead_slot e then e\<lparr>neighbor := - 1\<rparr> else e)"

section \<open>Properties of the byte swap\<close>

lemma mask_16_hi: "(0xFFFF0000FFFF0000 :: 64 word) = push_bit 16 (mask 16) OR push_bit 48 (mask 16)"
  by (simp add: mask_eq_exp_minus_1)

lemma mask_16_lo: "(0x0000FFFF0000FFFF :: 64 word) = mask 16 OR push_bit 32 (mask 16)"
  by (simp add: mask_eq_exp_minus_1)

lemma mask_8_hi:
  "(0xFF00FF00FF00FF00 :: 64 word) =
     push_bit 8 (mask 8) OR push_bit 24 (mask 8) OR push_bit 40 (mask 8) OR push_bit 56 (mask 8)"
  by (simp add: mask_eq_exp_minus_1)

lemma mask_8_lo:
  "(0x00FF00FF00FF00FF :: 64 word) =
     mask 8 OR push_bit 16 (mask 8) OR push_bit 32 (mask 8) OR push_bit 48 (mask 8)"
  by (simp add: mask_eq_exp_minus_1)

text \<open>Inside byte \<open>q\<close> of the result sits byte \<open>7 - q\<close> of the argument, bit for bit.\<close>

lemma bit_bs64_byte:
  assumes r: "r < 8" and q: "q < 8"
  shows "bit (bs64 x) (8 * q + r) = bit x (8 * (7 - q) + r)"
proof -
  have one: "bit (bs64 x) (8 * k + r) = bit x (8 * (7 - k) + r)"
    if "k = 0 \<or> k = 1 \<or> k = 2 \<or> k = 3 \<or> k = 4 \<or> k = 5 \<or> k = 6 \<or> k = 7" for k
    using that r
    unfolding bs64_def Let_def mask_16_hi mask_16_lo mask_8_hi mask_8_lo
    by (elim disjE) (auto simp: bit_simps dest: bit_imp_le_length)
  from q have "q = 0 \<or> q = 1 \<or> q = 2 \<or> q = 3 \<or> q = 4 \<or> q = 5 \<or> q = 6 \<or> q = 7"
    by linarith
  then show ?thesis
    by (rule one)
qed

lemma bit_bs64: "bit (bs64 x) n \<longleftrightarrow> n < 64 \<and> bit x (8 * (7 - n div 8) + n mod 8)"
proof (cases "n < 64")
  case True
  then have "n div 8 < 8" and "n mod 8 < 8"
    by simp_all
  then have "bit (bs64 x) (8 * (n div 8) + n mod 8) = bit x (8 * (7 - n div 8) + n mod 8)"
    by (simp only: bit_bs64_byte)
  with True show ?thesis
    by simp
next
  case False
  then have "\<not> bit (bs64 x) n"
    by (auto dest: bit_imp_le_length)
  with False show ?thesis
    by simp
qed

lemma mirror_twice:
  fixes n :: nat
  assumes "n < 64"
  shows "8 * (7 - n div 8) + n mod 8 < 64"
    and "8 * (7 - (8 * (7 - n div 8) + n mod 8) div 8) + (8 * (7 - n div 8) + n mod 8) mod 8 = n"
proof -
  define q r where "q = n div 8" and "r = n mod 8"
  have n: "n = 8 * q + r" and r: "r < 8"
    by (simp_all add: q_def r_def)
  have q: "q < 8"
    using assms by (simp add: q_def)
  have d: "(8 * (7 - q) + r) div 8 = 7 - q" and m: "(8 * (7 - q) + r) mod 8 = r"
    using r by simp_all
  show "8 * (7 - n div 8) + n mod 8 < 64"
    unfolding q_def [symmetric] r_def [symmetric] using q r by simp
  show "8 * (7 - (8 * (7 - n div 8) + n mod 8) div 8) + (8 * (7 - n div 8) + n mod 8) mod 8 = n"
    unfolding q_def [symmetric] r_def [symmetric] d m using q n by simp
qed

lemma bs64_involution: "bs64 (bs64 x) = x"
proof (rule bit_word_eqI)
  fix n assume "n < LENGTH(64)"
  then have n: "n < 64" by simp
  show "bit (bs64 (bs64 x)) n = bit x n"
    using n mirror_twice [OF n] by (simp add: bit_bs64)
qed

lemma byte_of_bs64: "k < 8 \<Longrightarrow> byte_of (bs64 x) k = byte_of x (7 - k)"
  unfolding byte_of_def
  by (rule bit_word_eqI) (auto simp: bit_simps bit_bs64)

lemma bs64_n_step:
  assumes n: "n < length d"
  shows "(map f (take n d) @ drop n d)[n := f ((map f (take n d) @ drop n d) ! n)]
           = map f (take (Suc n) d) @ drop (Suc n) d"
proof -
  have d: "drop n d = d ! n # drop (Suc n) d"
    using n by (simp add: Cons_nth_drop_Suc)
  have l: "length (map f (take n d)) = n"
    using n by simp
  have "(map f (take n d) @ drop n d) ! n = d ! n"
    using n by (simp add: nth_append)
  moreover have "(map f (take n d) @ d ! n # drop (Suc n) d)[n := y]
                   = map f (take n d) @ y # drop (Suc n) d" for y
    using l by (metis list_update_length)
  ultimately show ?thesis
    using n by (simp add: d take_Suc_conv_app_nth)
qed

lemma bs64_n_loop:
  "n \<le> length d \<Longrightarrow>
   fold (\<lambda>k d. d[k := f (d ! k)]) [0..<n] d = map f (take n d) @ drop n d"
proof (induction n)
  case 0
  then show ?case by simp
next
  case (Suc n)
  then have n: "n < length d" by simp
  have "fold (\<lambda>k d. d[k := f (d ! k)]) [0..<Suc n] d
          = (map f (take n d) @ drop n d)[n := f ((map f (take n d) @ drop n d) ! n)]"
    using Suc by simp
  then show ?case
    using n by (simp only: bs64_n_step)
qed

lemma bs64_n_eq: "n \<le> length d \<Longrightarrow> bs64_n n d = Some (map bs64 (take n d) @ drop n d)"
  by (simp add: bs64_n_def bs64_n_loop)

text \<open>
  Claim C10: \<open>bs64\<close> reverses the order of the eight bytes of its argument and is an
  involution; \<open>bs64_n\<close> applies \<open>bs64\<close> to each of the first \<open>n\<close> words of an array
  (that has at least \<open>n\<close> words) and leaves the other words as they are, so that
  \<open>bs64_n\<close> applied twice gives the array back.
\<close>

theorem bs64_reverses_bytes_involution:
  "map (byte_of (bs64 x)) [0..<8] = rev (map (byte_of x) [0..<8])
   \<and> bs64 (bs64 x) = x
   \<and> (n \<le> length d \<longrightarrow>
        bs64_n n d = Some (map bs64 (take n d) @ drop n d)
        \<and> Option.bind (bs64_n n d) (bs64_n n) = Some d)"
proof -
  have "map (byte_of (bs64 x)) [0..<8] = map (\<lambda>k. byte_of x (7 - k)) [0..<8]"
    unfolding map_eq_conv by (simp add: byte_of_bs64)
  also have "\<dots> = rev (map (byte_of x) [0..<8])"
    by (simp add: upt_conv_Cons eval_nat_numeral)
  finally have bytes: "map (byte_of (bs64 x)) [0..<8] = rev (map (byte_of x) [0..<8])" .
  have twice: "Option.bind (bs64_n n d) (bs64_n n) = Some d" if "n \<le> length d"
  proof -
    have "map bs64 (take n (map bs64 (take n d) @ drop n d)) = take n d"
      using that by (simp add: bs64_involution comp_def)
    moreover have "drop n (map bs64 (take n d) @ drop n d) = drop n d"
      using that by simp
    ultimately show ?thesis
      using that by (simp add: bs64_n_eq)
  qed
  from bytes bs64_involution [of x] twice bs64_n_eq [of n d] show ?thesis
    by blast
qed

theorem bs64_reverses_bytes_involution_witness:
  "map (byte_of (bs64 0x0102030405060708)) [0..<8] = rev (map (byte_of 0x0102030405060708) [0..<8])
   \<and> bs64 (bs64 0x0102030405060708) = 0x0102030405060708
   \<and> (2::nat) \<le> length [0x1234ABCD, 5, 7 :: int64_t]
   \<and> bs64_n 2 [0x1234ABCD, 5, 7] = Some [0xCDAB341200000000, 0x0500000000000000, 7]
   \<and> Option.bind (bs64_n 2 [0x1234ABCD, 5, 7]) (bs64_n 2) = Some [0x1234ABCD, 5, 7]"
  using bs64_reverses_bytes_involution [of "0x0102030405060708" 2 "[0x1234ABCD, 5, 7]"]
  by (auto simp: bs64_def)

section \<open>The comparators return a truncated difference\<close>

text \<open>
  Claim C9: the sign of the value returned by \<open>i64_cmp\<close>, \<open>csr_cmp\<close> and
  \<open>i64cmp_adj_sort\<close> agrees with the 64-bit order of the compared values. The code
  returns the low 32 bits of the difference: for \<open>a = 2^32\<close> and \<open>b = 0\<close> all three
  return 0 although \<open>b < a\<close>, and for \<open>a = 2^31\<close> and \<open>b = 0\<close> they return a negative
  value although \<open>b < a\<close>.
\<close>

theorem comparators_lose_high_bits:
  "(0 :: int64_t) <s 4294967296
   \<and> sint (i64_cmp 4294967296 0) = 0
   \<and> sint (csr_cmp [4294967296, 0] 0 1) = 0
   \<and> sint (i64cmp_adj_sort \<lparr>vtx = 4294967296, wgt = 1\<rparr> \<lparr>vtx = 0, wgt = 1\<rparr>) = 0
   \<and> (0 :: int64_t) <s 2147483648
   \<and> sint (i64_cmp 2147483648 0) < 0
   \<and> sint (csr_cmp [2147483648, 0] 0 1) < 0
   \<and> sint (i64cmp_adj_sort \<lparr>vtx = 2147483648, wgt = 1\<rparr> \<lparr>vtx = 0, wgt = 1\<rparr>) < 0"
  by (simp add: i64_cmp_def csr_cmp_def i64cmp_adj_sort_def word_sless_alt)

section \<open>Inclusive prefix sum: the serial body, and the parallel body with an empty slice\<close>

lemma scan_step:
  fixes ary :: "int64_t list"
  assumes m: "1 \<le> m" "m < length ary"
  defines "a \<equiv> map (\<lambda>k. sum_list (take (Suc k) ary)) [0..<m] @ drop m ary"
  shows "a[m := a ! m + a ! (m - 1)]
           = map (\<lambda>k. sum_list (take (Suc k) ary)) [0..<Suc m] @ drop (Suc m) ary"
proof -
  have d: "drop m ary = ary ! m # drop (Suc m) ary"
    using m by (simp add: Cons_nth_drop_Suc)
  have l: "length (map (\<lambda>k. sum_list (take (Suc k) ary)) [0..<m]) = m"
    by simp
  have am: "a ! m = ary ! m"
    using m by (simp add: a_def nth_append)
  have am1: "a ! (m - 1) = sum_list (take m ary)"
    using m by (simp add: a_def nth_append)
  have s: "sum_list (take (Suc m) ary) = ary ! m + sum_list (take m ary)"
    using m by (simp add: take_Suc_conv_app_nth)
  have "a[m := y] = map (\<lambda>k. sum_list (take (Suc k) ary)) [0..<m] @ y # drop (Suc m) ary" for y
    unfolding a_def d using l by (metis list_update_length)
  from this [of "a ! m + a ! (m - 1)"] show ?thesis
    by (simp only: am am1 s upt_Suc_append [OF le0] map_append list.map append_assoc append_Cons append_Nil add.commute)
qed

lemma scan_loop:
  fixes ary :: "int64_t list"
  shows "1 \<le> m \<Longrightarrow> m \<le> length ary \<Longrightarrow>
         fold (\<lambda>k a. a[k := a ! k + a ! (k - 1)]) [1..<m] ary
           = map (\<lambda>k. sum_list (take (Suc k) ary)) [0..<m] @ drop m ary"
proof (induction m)
  case 0
  then show ?case by simp
next
  case (Suc m)
  show ?case
  proof (cases "m = 0")
    case True
    with Suc.prems show ?thesis
      by (cases ary) simp_all
  next
    case False
    with Suc.prems have m: "1 \<le> m" "m < length ary"
      by simp_all
    then have "fold (\<lambda>k a. a[k := a ! k + a ! (k - 1)]) [1..<Suc m] ary
                 = (let a = map (\<lambda>k. sum_list (take (Suc k) ary)) [0..<m] @ drop m ary
                    in a[m := a ! m + a ! (m - 1)])"
      using Suc.IH by (simp add: Let_def)
    then show ?thesis
      unfolding Let_def by (simp only: scan_step [OF m])
  qed
qed

lemma prefix_sum_serial_correct:
  assumes "0 < n" "n \<le> length ary"
  shows "prefix_sum_serial n ary
           = Some (map (\<lambda>k. sum_list (take (Suc k) ary)) [0..<n] @ drop n ary, sum_list (take n ary))"
proof -
  have "(map (\<lambda>k. sum_list (take (Suc k) ary)) [0..<n] @ drop n ary) ! (n - 1) = sum_list (take n ary)"
    using assms by (simp add: nth_append)
  moreover have "1 \<le> n"
    using assms by simp
  ultimately show ?thesis
    using assms by (simp only: prefix_sum_serial_def scan_loop Let_def simp_thms if_True)
qed

text \<open>
  Claim C3: for every non-empty array \<open>prefix_sum\<close> replaces element \<open>k\<close> by the sum of
  the input elements \<open>0..k\<close> and returns the last one; \<open>[4,1,2,5]\<close> becomes
  \<open>[4,5,7,12]\<close> with 12 returned. The serial body does so; the OpenMP body run by a
  team of 8 threads on \<open>[4,1,2,5]\<close> leaves \<open>[4,9,12,19]\<close> and returns 19, and run by 4
  threads on \<open>[4,1]\<close> it leaves \<open>[4,9]\<close>: a thread whose slice is empty still adds the
  running total to the first element of the next slice.
\<close>

theorem prefix_sum_omp_empty_slice:
  "prefix_sum_omp 8 4 [4, 1, 2, 5] = Some ([4, 9, 12, 19], 19)
   \<and> prefix_sum_omp 4 2 [4, 1] = Some ([4, 9], 9)
   \<and> prefix_sum_omp 2 4 [4, 1, 2, 5] = Some ([4, 5, 7, 12], 12)
   \<and> prefix_sum_serial 4 [4, 1, 2, 5] = Some ([4, 5, 7, 12], 12)
   \<and> prefix_sum_serial 1 [7] = Some ([7], 7)"
  by code_simp

section \<open>Counting sort writes its output without the stride\<close>

text \<open>
  Claim C7: \<open>counting_sort\<close> reads \<open>num\<close> keys spaced \<open>size\<close> words apart and leaves the
  keys as a sorted permutation of the input keys. The output loop stores the sorted
  values at \<open>array[0], array[1], ...\<close> whatever the stride is: two items of two words,
  \<open>(2, 9)\<close> and \<open>(1, 9)\<close>, become \<open>[1, 2, 1, 9]\<close>, whose keys at stride 2 are
  \<open>1, 1\<close>, not a permutation of \<open>2, 1\<close>. With stride 1 the same keys are sorted.
\<close>

theorem counting_sort_ignores_stride_on_output:
  "counting_sort [2, 9, 1, 9] 2 2 = Some [1, 2, 1, 9]
   \<and> keys_at [2, 9, 1, 9] 2 2 = [2, 1]
   \<and> keys_at [1, 2, 1, 9] 2 2 = [1, 1]
   \<and> counting_sort [2, 1] 2 1 = Some [1, 2]
   \<and> counting_sort [3, -1, 2, -1] 4 1 = Some [-1, -1, 2, 3]"
  by code_simp

section \<open>Sorting pairs: the radix sort does not shift the first element\<close>

text \<open>
  Claim C1: \<open>bucket_sort_pairs\<close> and \<open>radix_sort_pairs\<close> both leave the pairs in
  ascending lexicographic order. On the pairs \<open>(3,9), (1,5), (3,2)\<close> both do. The
  radix sort shifts the second elements into the non-negative range before its first
  digit loop, but takes the digits of the first elements as they are: the pairs
  \<open>(1,0), (-1,0)\<close> stay in this order, although \<open>-1 < 1\<close>, and so do
  \<open>(0,0), (-1,0)\<close>, for which the second digit loop does not run at all. The bucket
  sort orders both inputs.
\<close>

theorem radix_sort_pairs_negative_first:
  "radix_sort_pairs [1, 0, -1, 0] 4 8 = Some [1, 0, -1, 0]
   \<and> radix_sort_pairs [0, 0, -1, 0] 4 8 = Some [0, 0, -1, 0]
   \<and> (-1 :: int64_t) <s 1 \<and> (-1 :: int64_t) <s 0
   \<and> bucket_sort_pairs [1, 0, -1, 0] 2 = Some [-1, 0, 1, 0]
   \<and> bucket_sort_pairs [0, 0, -1, 0] 2 = Some [-1, 0, 0, 0]
   \<and> bucket_sort_pairs [3, 9, 1, 5, 3, 2] 3 = Some [1, 5, 3, 2, 3, 9]
   \<and> radix_sort_pairs [3, 9, 1, 5, 3, 2] 6 2 = Some [1, 5, 3, 2, 3, 9]"
  by code_simp

section \<open>Sorted CSR extraction inherits the truncating comparator\<close>

text \<open>
  Claim C2: after \<open>stinger_to_sorted_csr\<close> every vertex's slice of the neighbor array
  is non-decreasing and the metadata arrays are permuted like the neighbors. For a
  vertex with the neighbors \<open>0\<close> and \<open>2^31 + 1\<close> the comparator \<open>csr_cmp\<close> reports the
  larger one as smaller (in both argument orders), and the slice comes out as
  \<open>[2^31 + 1, 0]\<close>; the weights follow their neighbors.
\<close>

theorem sorted_csr_slice_descending:
  "stinger_to_sorted_csr 1
     \<lparr>off = [0, 2], ind = [0, 2147483649], weights = Some [10, 20],
      timefirst = None, timerecent = None, types = None\<rparr>
   = Some \<lparr>off = [0, 2], ind = [2147483649, 0], weights = Some [20, 10],
            timefirst = None, timerecent = None, types = None\<rparr>
   \<and> (0 :: int64_t) <s 2147483649
   \<and> sint (csr_cmp [0, 2147483649] 1 0) < 0
   \<and> 0 < sint (csr_cmp [0, 2147483649] 0 1)"
  by code_simp

section \<open>Edge list to CSR and back\<close>

lemma fold_upt_Suc: "fold f [0..<Suc m] a = f m (fold f [0..<m] a)"
  by simp

lemma zero_loop: "n \<le> length a \<Longrightarrow> fold (\<lambda>i a. a[i := c]) [0..<n] a = replicate n c @ drop n a"
proof (induction n)
  case 0
  then show ?case by simp
next
  case (Suc n)
  then have n: "n < length a" by simp
  have "(replicate n c @ drop n a)[n := c] = replicate (Suc n) c @ drop (Suc n) a"
    using n by (simp add: list_update_append replicate_app_Cons_same upd_conv_take_nth_drop Cons_nth_drop_Suc [symmetric])
  with Suc show ?case by simp
qed

lemma occurrences_0 [simp]: "occurrences key 0 v = 0"
  by (simp add: occurrences_def)

lemma occurrences_Suc: "occurrences key (Suc m) v = occurrences key m v + (if key m = v then 1 else 0)"
  by (simp add: occurrences_def)

lemma occurrences_mono: "m \<le> n \<Longrightarrow> occurrences key m v \<le> occurrences key n v"
  by (induction n) (auto simp: occurrences_Suc le_Suc_eq)

lemma occurrences_less: "m < n \<Longrightarrow> occurrences key m (key m) < occurrences key n (key m)"
proof -
  assume "m < n"
  then have "occurrences key (Suc m) (key m) \<le> occurrences key n (key m)"
    by (intro occurrences_mono) simp
  then show ?thesis
    by (simp add: occurrences_Suc)
qed

lemma sum_occurrences: "(\<forall>i<m. key i < n) \<Longrightarrow> (\<Sum>v<n. occurrences key m v) = m"
proof (induction m)
  case 0
  then show ?case by simp
next
  case (Suc m)
  then have k: "key m < n" by simp
  have "(\<Sum>v<n. occurrences key (Suc m) v) = (\<Sum>v<n. occurrences key m v) + (\<Sum>v<n. if key m = v then 1 else 0)"
    by (simp add: occurrences_Suc sum.distrib)
  also have "(\<Sum>v<n. if key m = v then 1 else 0) = (1::nat)"
    using k by simp
  finally show ?case
    using Suc by simp
qed

lemma incr_loop_nth:
  fixes key :: "nat \<Rightarrow> nat"
  assumes "\<forall>i<m. key i < length a" "j < length a"
  shows "length (fold (\<lambda>i a. a[key i := a ! key i + c]) [0..<m] a) = length a
         \<and> fold (\<lambda>i a. a[key i := a ! key i + c]) [0..<m] a ! j = a ! j + c * occurrences key m j"
  using assms
proof (induction m arbitrary: j)
  case 0
  then show ?case by simp
next
  case (Suc m)
  let ?b = "fold (\<lambda>i a. a[key i := a ! key i + c]) [0..<m] a"
  from Suc.prems have p: "\<forall>i<m. key i < length a"
    by simp
  from Suc.prems have k: "key m < length a"
    by simp
  have IH: "length ?b = length a" "?b ! j = a ! j + c * occurrences key m j"
    using Suc.IH [OF p Suc.prems(2)] by simp_all
  have IHk: "?b ! key m = a ! key m + c * occurrences key m (key m)"
    using Suc.IH [OF p k] by simp
  show ?case
    using IH IHk k Suc.prems(2)
    by (simp add: occurrences_Suc nth_list_update algebra_simps)
qed

lemma occurrences_shift: "occurrences (\<lambda>i. d + key i) m (d + v) = occurrences key m v"
  by (simp add: occurrences_def)

lemma occurrences_below:
  assumes "j < d"
  shows "occurrences (\<lambda>i. d + key i) m j = 0"
proof -
  have "d + key i \<noteq> j" for i
    using assms by simp
  then show ?thesis
    by (simp add: occurrences_def)
qed

lemma accumulate_loop:
  fixes a :: "nat list"
  assumes "m + 2 \<le> length a"
  shows "length (fold (\<lambda>i a. a[2 + i := a ! (2 + i) + a ! (2 + i - 1)]) [1..<m] a) = length a
         \<and> (\<forall>v<m. fold (\<lambda>i a. a[2 + i := a ! (2 + i) + a ! (2 + i - 1)]) [1..<m] a ! (2 + v)
                       = (\<Sum>u\<le>v. a ! (2 + u)))
         \<and> (\<forall>j. j < 2 \<or> 2 + m \<le> j \<longrightarrow>
                  fold (\<lambda>i a. a[2 + i := a ! (2 + i) + a ! (2 + i - 1)]) [1..<m] a ! j = a ! j)"
  using assms
proof (induction m)
  case 0
  then show ?case by simp
next
  case (Suc m)
  let ?step = "\<lambda>i a. a[2 + i := a ! (2 + i) + a ! (2 + i - 1)]"
  let ?R = "fold ?step [1..<m] a"
  from Suc.prems have "m + 2 \<le> length a"
    by simp
  note IH0 = Suc.IH [OF this]
  from IH0 have IH: "length ?R = length a"
      "\<And>v. v < m \<Longrightarrow> ?R ! (2 + v) = (\<Sum>u\<le>v. a ! (2 + u))"
      "\<And>j. j < 2 \<or> 2 + m \<le> j \<Longrightarrow> ?R ! j = a ! j"
    by blast+
  show ?case
  proof (cases m)
    case 0
    then show ?thesis by simp
  next
    case (Suc m')
    have R': "fold ?step [1..<Suc m] a = ?R[2 + m := ?R ! (2 + m) + ?R ! (2 + m - 1)]"
      using Suc by simp
    have a1: "?R ! (2 + m) = a ! (2 + m)"
      by (rule IH(3)) simp
    have a2: "?R ! (2 + m - 1) = (\<Sum>u\<le>m'. a ! (2 + u))"
      using IH(2) [of m'] Suc by simp
    have len: "2 + m < length ?R"
      using Suc.prems IH(1) by simp
    have new: "(\<Sum>u\<le>m. a ! (2 + u)) = a ! (2 + m) + (\<Sum>u\<le>m'. a ! (2 + u))"
      using Suc by simp
    show ?thesis
      unfolding R'
    proof (intro conjI allI impI)
      show "length (?R[2 + m := ?R ! (2 + m) + ?R ! (2 + m - 1)]) = length a"
        using IH(1) by simp
    next
      fix v assume "v < Suc m"
      then show "?R[2 + m := ?R ! (2 + m) + ?R ! (2 + m - 1)] ! (2 + v) = (\<Sum>u\<le>v. a ! (2 + u))"
        using len IH(2) [of v] a1 a2 new by (cases "v = m") (simp_all add: nth_list_update)
    next
      fix j assume "j < 2 \<or> 2 + Suc m \<le> j"
      then show "?R[2 + m := ?R ! (2 + m) + ?R ! (2 + m - 1)] ! j = a ! j"
        using IH(3) [of j] by (auto simp: nth_list_update)
    qed
  qed
qed

lemma bucket_start_Suc: "bucket_start key ne (Suc v) = bucket_start key ne v + occurrences key ne v"
  by (simp add: bucket_start_def)

lemma bucket_start_mono: "u \<le> v \<Longrightarrow> bucket_start key ne u \<le> bucket_start key ne v"
  unfolding bucket_start_def by (intro sum_mono2) auto

lemma csr_offsets:
  assumes len: "length offset = nv + 2" and keys: "\<forall>i<ne. unat (sv1 ! i) < nv"
  defines "offs \<equiv> csr_accumulate nv (csr_histogram nv ne sv1 offset)"
  shows "length offs = nv + 2" and "offs ! 0 = 0"
    and "\<And>v. v \<le> nv \<Longrightarrow> offs ! (1 + v) = bucket_start (\<lambda>i. unat (sv1 ! i)) ne v"
proof -
  let ?key = "\<lambda>i. unat (sv1 ! i)"
  let ?H = "csr_histogram nv ne sv1 offset"
  have z: "fold (\<lambda>i offset. offset[i := 0]) [0..<nv + 2] offset = replicate (nv + 2) 0"
    using zero_loop [of "nv + 2" offset 0] len by simp
  have k2: "\<forall>i<ne. 2 + ?key i < length (replicate (nv + 2) (0::nat))"
    using keys by simp
  have Hdef: "?H = fold (\<lambda>i a. a[2 + ?key i := a ! (2 + ?key i) + 1]) [0..<ne] (replicate (nv + 2) 0)"
    unfolding csr_histogram_def z ..
  have H: "length ?H = nv + 2 \<and> ?H ! j = occurrences (\<lambda>i. 2 + ?key i) ne j" if "j < nv + 2" for j
  proof -
    have j: "j < length (replicate (nv + 2) (0::nat))"
      using that by simp
    have r: "replicate (nv + 2) (0::nat) ! j = 0"
      using that by (simp only: nth_replicate)
    show ?thesis
      using incr_loop_nth [OF k2 j, of 1] unfolding Hdef [symmetric] r
      by (simp only: length_replicate mult_1 add_0)
  qed
  have lenH: "length ?H = nv + 2"
    using H [of 0] by simp
  have o0: "occurrences (\<lambda>i. 2 + ?key i) ne 0 = 0"
    by (rule occurrences_below) simp
  have o1: "occurrences (\<lambda>i. 2 + ?key i) ne 1 = 0"
    by (rule occurrences_below) simp
  have "0 < nv + 2" "1 < nv + 2"
    by simp_all
  then have H01: "?H ! 0 = 0" "?H ! 1 = 0"
    using H [of 0] H [of 1] by (simp_all only: o0 o1)
  have H2: "?H ! (2 + v) = occurrences ?key ne v" if "v < nv" for v
  proof -
    have "2 + v < nv + 2"
      using that by simp
    from H [OF this] show ?thesis
      by (simp only: occurrences_shift)
  qed
  have "nv + 2 \<le> length ?H"
    using lenH by simp
  from accumulate_loop [OF this]
  have acc: "length offs = length ?H"
      "\<And>v. v < nv \<Longrightarrow> offs ! (2 + v) = (\<Sum>u\<le>v. ?H ! (2 + u))"
      "\<And>j. j < 2 \<or> 2 + nv \<le> j \<Longrightarrow> offs ! j = ?H ! j"
    unfolding offs_def csr_accumulate_def by blast+
  show "length offs = nv + 2"
    using acc(1) lenH by simp
  show "offs ! 0 = 0"
    using acc(3) [of 0] H01 by simp
  show "offs ! (1 + v) = bucket_start ?key ne v" if "v \<le> nv" for v
  proof (cases v)
    case 0
    then show ?thesis
      using acc(3) [of 1] H01 by (simp add: bucket_start_def)
  next
    case (Suc v')
    then have v': "v' < nv"
      using that by simp
    have "offs ! (2 + v') = (\<Sum>u\<le>v'. ?H ! (2 + u))"
      by (rule acc(2) [OF v'])
    also have "\<dots> = (\<Sum>u\<le>v'. occurrences ?key ne u)"
    proof (rule sum.cong)
      fix u assume "u \<in> {..v'}"
      then have "u < nv"
        using v' by simp
      then show "?H ! (2 + u) = occurrences ?key ne u"
        by (rule H2)
    qed simp
    also have "\<dots> = bucket_start ?key ne (Suc v')"
      by (simp add: bucket_start_def lessThan_Suc_atMost)
    finally show ?thesis
      using Suc by simp
  qed
qed

lemma filter_upt_Suc:
  "filter P [0..<Suc m] = filter P [0..<m] @ (if P m then [m] else [])"
  by simp

lemma bucket_end: "bucket_start key ne v + occurrences key ne v = bucket_start key ne (Suc v)"
  by (simp add: bucket_start_Suc)

lemma bucket_start_total: "\<forall>i<ne. key i < nv \<Longrightarrow> bucket_start key ne nv = ne"
  by (simp add: bucket_start_def sum_occurrences)

text \<open>
  Where the next edge goes lies inside the bucket of its source and outside the part of
  every bucket that is already filled.
\<close>

lemma next_slot:
  assumes keys: "\<forall>i<ne. key i < nv" and m: "m < ne"
  defines "idx \<equiv> bucket_start key ne (key m) + occurrences key m (key m)"
  shows "idx < ne"
    and "\<And>v t. t < occurrences key m v \<Longrightarrow> bucket_start key ne v + t \<noteq> idx"
proof -
  let ?S = "bucket_start key ne"
  have lt: "occurrences key m (key m) < occurrences key ne (key m)"
    using m by (rule occurrences_less)
  then have end_k: "idx < ?S (Suc (key m))"
    by (simp add: idx_def bucket_start_Suc)
  have "Suc (key m) \<le> nv"
    using keys m by (simp add: Suc_le_eq)
  then have "?S (Suc (key m)) \<le> ?S nv"
    by (rule bucket_start_mono)
  with end_k show "idx < ne"
    using bucket_start_total [OF keys] by simp
  fix v t assume t: "t < occurrences key m v"
  have tv: "t < occurrences key ne v"
    using t occurrences_mono [of m ne key v] m by simp
  show "?S v + t \<noteq> idx"
  proof (cases "v = key m")
    case True
    with t show ?thesis
      by (simp add: idx_def)
  next
    case False
    then consider "v < key m" | "key m < v"
      by linarith
    then show ?thesis
    proof cases
      case 1
      then have "?S (Suc v) \<le> ?S (key m)"
        by (intro bucket_start_mono) simp
      moreover have "?S v + t < ?S (Suc v)"
        using tv by (simp add: bucket_start_Suc)
      ultimately show ?thesis
        by (simp add: idx_def)
    next
      case 2
      then have "?S (Suc (key m)) \<le> ?S v"
        by (intro bucket_start_mono) simp
      with end_k show ?thesis
        by simp
    qed
  qed
qed

lemma filled_step:
  assumes keys: "\<forall>i<ne. key i < nv" and m: "m < ne"
    and inv: "filled key nv ne ev1 w1 m (offs, e, w)"
  shows "filled key nv ne ev1 w1 (Suc m)
           (offs[1 + key m := offs ! (1 + key m) + 1],
            e[offs ! (1 + key m) := ev1 ! m], w[offs ! (1 + key m) := w1 ! m])"
proof -
  let ?S = "bucket_start key ne"
  let ?k = "key m"
  let ?idx = "?S ?k + occurrences key m ?k"
  have k: "?k < nv"
    using keys m by simp
  from inv have len: "length offs = nv + 2" "ne \<le> length e" "ne \<le> length w" and o0: "offs ! 0 = 0"
    and ov: "\<And>v. v \<le> nv \<Longrightarrow> offs ! (1 + v) = ?S v + (if v < nv then occurrences key m v else 0)"
    and ew: "\<And>v t. v < nv \<Longrightarrow> t < occurrences key m v \<Longrightarrow>
               e ! (?S v + t) = ev1 ! (filter (\<lambda>i. key i = v) [0..<m] ! t)
             \<and> w ! (?S v + t) = w1 ! (filter (\<lambda>i. key i = v) [0..<m] ! t)"
    unfolding filled_def by auto
  have idx: "offs ! (1 + ?k) = ?idx"
    using ov [of ?k] k by simp
  have idx_lt: "?idx < ne" and idx_ne: "\<And>v t. t < occurrences key m v \<Longrightarrow> ?S v + t \<noteq> ?idx"
    using next_slot [OF keys m] by simp_all
  have lf: "length (filter (\<lambda>i. key i = v) [0..<m]) = occurrences key m v" for v
    by (simp add: occurrences_def)
  show ?thesis
    unfolding filled_def idx prod.case
  proof (intro conjI allI impI)
    show "length (offs[1 + ?k := ?idx + 1]) = nv + 2"
      using len by simp
    show "ne \<le> length (e[?idx := ev1 ! m])" "ne \<le> length (w[?idx := w1 ! m])"
      using len by simp_all
    show "offs[1 + ?k := ?idx + 1] ! 0 = 0"
      using o0 by simp
  next
    fix v assume v: "v \<le> nv"
    show "offs[1 + ?k := ?idx + 1] ! (1 + v)
            = ?S v + (if v < nv then occurrences key (Suc m) v else 0)"
    proof (cases "v = ?k")
      case True
      then show ?thesis
        using k len by (simp add: occurrences_Suc)
    next
      case False
      then show ?thesis
        using ov [OF v] by (simp add: occurrences_Suc)
    qed
  next
    fix v t assume v: "v < nv" and t: "t < occurrences key (Suc m) v"
    show "e[?idx := ev1 ! m] ! (?S v + t) = ev1 ! (filter (\<lambda>i. key i = v) [0..<Suc m] ! t)"
    proof (cases "t < occurrences key m v")
      case True
      then have "filter (\<lambda>i. key i = v) [0..<Suc m] ! t = filter (\<lambda>i. key i = v) [0..<m] ! t"
        unfolding filter_upt_Suc by (simp add: nth_append lf)
      then show ?thesis
        using ew [OF v True] idx_ne [OF True] by simp
    next
      case False
      with t have vk: "v = ?k" and tt: "t = occurrences key m ?k"
        by (auto simp: occurrences_Suc split: if_splits)
      have "filter (\<lambda>i. key i = ?k) [0..<Suc m] ! occurrences key m ?k = m"
        unfolding filter_upt_Suc by (simp add: nth_append lf)
      then show ?thesis
        using idx_lt len by (simp add: vk tt)
    qed
    show "w[?idx := w1 ! m] ! (?S v + t) = w1 ! (filter (\<lambda>i. key i = v) [0..<Suc m] ! t)"
    proof (cases "t < occurrences key m v")
      case True
      then have "filter (\<lambda>i. key i = v) [0..<Suc m] ! t = filter (\<lambda>i. key i = v) [0..<m] ! t"
        unfolding filter_upt_Suc by (simp add: nth_append lf)
      then show ?thesis
        using ew [OF v True] idx_ne [OF True] by simp
    next
      case False
      with t have vk: "v = ?k" and tt: "t = occurrences key m ?k"
        by (auto simp: occurrences_Suc split: if_splits)
      have "filter (\<lambda>i. key i = ?k) [0..<Suc m] ! occurrences key m ?k = m"
        unfolding filter_upt_Suc by (simp add: nth_append lf)
      then show ?thesis
        using idx_lt len by (simp add: vk tt)
    qed
  qed
qed

lemma csr_scatter_filled:
  assumes keys: "\<forall>i<ne. unat (sv1 ! i) < nv"
    and init: "filled (\<lambda>i. unat (sv1 ! i)) nv ne ev1 w1 0 st"
  shows "m \<le> ne \<Longrightarrow> filled (\<lambda>i. unat (sv1 ! i)) nv ne ev1 w1 m (csr_scatter m sv1 ev1 w1 st)"
proof (induction m)
  case 0
  with init show ?case
    by (simp add: csr_scatter_def)
next
  case (Suc m)
  then have m: "m < ne" and IH: "filled (\<lambda>i. unat (sv1 ! i)) nv ne ev1 w1 m (csr_scatter m sv1 ev1 w1 st)"
    by simp_all
  obtain offs e w where st: "csr_scatter m sv1 ev1 w1 st = (offs, e, w)"
    by (cases "csr_scatter m sv1 ev1 w1 st") auto
  have "csr_scatter (Suc m) sv1 ev1 w1 st
          = (offs[1 + unat (sv1 ! m) := offs ! (1 + unat (sv1 ! m)) + 1],
             e[offs ! (1 + unat (sv1 ! m)) := ev1 ! m], w[offs ! (1 + unat (sv1 ! m)) := w1 ! m])"
    using st by (simp add: csr_scatter_def Let_def)
  then show ?case
    using filled_step [OF keys m IH [unfolded st]] by simp
qed

lemma filter_split_mset:
  assumes "\<And>x. \<not> (P x \<and> Q x)"
  shows "mset (filter P xs) + mset (filter Q xs) = mset (filter (\<lambda>x. P x \<or> Q x) xs)"
  using assms by (induction xs) auto

lemma mset_concat_buckets:
  fixes key :: "'a \<Rightarrow> nat"
  shows "mset (concat (map (\<lambda>v. map g (filter (\<lambda>x. key x = v) xs)) [0..<n]))
           = mset (map g (filter (\<lambda>x. key x < n) xs))"
proof (induction n)
  case 0
  then show ?case by simp
next
  case (Suc n)
  have "mset (filter (\<lambda>x. key x < n) xs) + mset (filter (\<lambda>x. key x = n) xs)
          = mset (filter (\<lambda>x. key x < n \<or> key x = n) xs)"
    by (rule filter_split_mset) simp
  also have "(\<lambda>x. key x < n \<or> key x = n) = (\<lambda>x. key x < Suc n)"
    by (auto simp: less_Suc_eq)
  finally have split: "mset (filter (\<lambda>x. key x < Suc n) xs)
                         = mset (filter (\<lambda>x. key x < n) xs) + mset (filter (\<lambda>x. key x = n) xs)"
    by simp
  have "mset (map g (filter (\<lambda>x. key x < Suc n) xs))
          = mset (map g (filter (\<lambda>x. key x < n) xs)) + mset (map g (filter (\<lambda>x. key x = n) xs))"
    using arg_cong [OF split, of "image_mset g"] by simp
  with Suc show ?case
    by simp
qed

lemma map_nth_filter: "map (\<lambda>t. g (xs ! t)) [0..<length xs] = map g xs"
proof -
  have "map (\<lambda>t. g (xs ! t)) [0..<length xs] = map g (map ((!) xs) [0..<length xs])"
    by (simp add: comp_def)
  then show ?thesis
    by (simp only: map_nth)
qed

lemma upt_as_shift:
  assumes "a \<le> b"
  shows "[a..<b] = map (\<lambda>t. a + t) [0..<b - a]"
proof -
  have "map (\<lambda>t. t + a) [0..<b - a] = [a..<b - a + a]"
    by (rule map_add_upt)
  then show ?thesis
    using assms by (simp add: add.commute)
qed

text \<open>Reading the filled arrays back.\<close>

lemma read_back:
  fixes sv1 ev1 w1 :: "int64_t list"
  assumes keys: "\<forall>i<ne. unat (sv1 ! i) < nv"
    and fin: "filled (\<lambda>i. unat (sv1 ! i)) nv ne ev1 w1 ne (offs, e, w)"
  shows "mset (csr_to_edge_list nv \<lparr>offset_arr = offs, ev2_arr = e, w2_arr = w, t2_arr = t2, t1_arr = t1\<rparr>)
           = mset (edge_list ne sv1 ev1 w1)"
proof -
  let ?key = "\<lambda>i. unat (sv1 ! i)"
  let ?S = "bucket_start ?key ne"
  let ?F = "\<lambda>v. filter (\<lambda>i. ?key i = v) [0..<ne]"
  let ?g = "\<lambda>i. (sv1 ! i, ev1 ! i, w1 ! i)"
  from fin have o0: "offs ! 0 = 0"
    and ov: "\<And>v. v \<le> nv \<Longrightarrow> offs ! (1 + v) = ?S v + (if v < nv then occurrences ?key ne v else 0)"
    and ew: "\<And>v t. v < nv \<Longrightarrow> t < occurrences ?key ne v \<Longrightarrow>
               e ! (?S v + t) = ev1 ! (?F v ! t) \<and> w ! (?S v + t) = w1 ! (?F v ! t)"
    unfolding filled_def by auto
  have start: "offs ! v = ?S v" if "v \<le> nv" for v
  proof (cases v)
    case 0
    with o0 show ?thesis
      by (simp add: bucket_start_def)
  next
    case (Suc u)
    with that have "u < nv" by simp
    then show ?thesis
      using ov [of u] Suc by (simp add: bucket_start_Suc)
  qed
  have bucket: "map (\<lambda>j. (word_of_nat v, e ! j, w ! j)) [offs ! v..<offs ! (v + 1)] = map ?g (?F v)"
    if v: "v < nv" for v
  proof -
    have lF: "length (?F v) = occurrences ?key ne v"
      by (simp add: occurrences_def)
    have s1: "offs ! v = ?S v" and s2: "offs ! (v + 1) = ?S v + occurrences ?key ne v"
      using start [of v] start [of "Suc v"] v by (simp_all add: bucket_start_Suc)
    have "[?S v..<?S v + occurrences ?key ne v] = map (\<lambda>t. ?S v + t) [0..<occurrences ?key ne v]"
      using upt_as_shift [of "?S v" "?S v + occurrences ?key ne v"] by simp
    then have "[offs ! v..<offs ! (v + 1)] = map (\<lambda>t. ?S v + t) [0..<length (?F v)]"
      by (simp only: s1 s2 lF)
    then have "map (\<lambda>j. (word_of_nat v, e ! j, w ! j)) [offs ! v..<offs ! (v + 1)]
                 = map (\<lambda>t. (word_of_nat v, e ! (?S v + t), w ! (?S v + t))) [0..<length (?F v)]"
      by (simp add: comp_def)
    also have "\<dots> = map (\<lambda>t. ?g (?F v ! t)) [0..<length (?F v)]"
    proof (rule map_cong [OF refl])
      fix t assume "t \<in> set [0..<length (?F v)]"
      then have t: "t < occurrences ?key ne v"
        by (simp add: lF)
      then have "t < length (?F v)"
        by (simp only: lF)
      then have "?F v ! t \<in> set (?F v)"
        by (rule nth_mem)
      then have "unat (sv1 ! (?F v ! t)) = v"
        by simp
      moreover have "word_of_nat (unat (sv1 ! (?F v ! t))) = sv1 ! (?F v ! t)"
        by simp
      ultimately have "word_of_nat v = sv1 ! (?F v ! t)"
        by simp
      then show "(word_of_nat v, e ! (?S v + t), w ! (?S v + t)) = ?g (?F v ! t)"
        using ew [OF v t] by simp
    qed
    also have "\<dots> = map ?g (?F v)"
      by (rule map_nth_filter)
    finally show ?thesis .
  qed
  have "map (\<lambda>v. map (\<lambda>j. (word_of_nat v, e ! j, w ! j)) [offs ! v..<offs ! (v + 1)]) [0..<nv]
          = map (\<lambda>v. map ?g (?F v)) [0..<nv]"
    by (rule map_cong [OF refl]) (simp only: bucket set_upt atLeastLessThan_iff)
  then have "csr_to_edge_list nv \<lparr>offset_arr = offs, ev2_arr = e, w2_arr = w, t2_arr = t2, t1_arr = t1\<rparr>
          = concat (map (\<lambda>v. map ?g (?F v)) [0..<nv])"
    by (simp only: csr_to_edge_list_def csr_arrays.select_convs)
  also have "mset \<dots> = mset (map ?g (filter (\<lambda>i. ?key i < nv) [0..<ne]))"
    by (rule mset_concat_buckets)
  also have "filter (\<lambda>i. ?key i < nv) [0..<ne] = [0..<ne]"
    using keys by (simp add: filter_id_conv)
  finally show ?thesis
    by (simp add: edge_list_def)
qed

lemma csr_scatter_times_proj:
  "(case csr_scatter_times m sv1 ev1 w1 recent first (offs, e, w, t2, t1) of
      (offs', e', w', t2', t1') \<Rightarrow> (offs', e', w'))
   = csr_scatter m sv1 ev1 w1 (offs, e, w)"
proof (induction m)
  case 0
  then show ?case
    by (simp add: csr_scatter_times_def csr_scatter_def)
next
  case (Suc m)
  obtain offs' e' w' t2' t1'
    where st: "csr_scatter_times m sv1 ev1 w1 recent first (offs, e, w, t2, t1) = (offs', e', w', t2', t1')"
    by (cases "csr_scatter_times m sv1 ev1 w1 recent first (offs, e, w, t2, t1)") auto
  with Suc have st3: "csr_scatter m sv1 ev1 w1 (offs, e, w) = (offs', e', w')"
    by simp
  have "csr_scatter_times (Suc m) sv1 ev1 w1 recent first (offs, e, w, t2, t1)
          = (offs'[1 + unat (sv1 ! m) := offs' ! (1 + unat (sv1 ! m)) + 1],
             e'[offs' ! (1 + unat (sv1 ! m)) := ev1 ! m], w'[offs' ! (1 + unat (sv1 ! m)) := w1 ! m],
             t2'[offs' ! (1 + unat (sv1 ! m)) := recent ! m],
             t1'[offs' ! (1 + unat (sv1 ! m)) := first ! m])"
    using st by (simp add: csr_scatter_times_def Let_def)
  moreover have "csr_scatter (Suc m) sv1 ev1 w1 (offs, e, w)
          = (offs'[1 + unat (sv1 ! m) := offs' ! (1 + unat (sv1 ! m)) + 1],
             e'[offs' ! (1 + unat (sv1 ! m)) := ev1 ! m], w'[offs' ! (1 + unat (sv1 ! m)) := w1 ! m])"
    using st3 by (simp add: csr_scatter_def Let_def)
  ultimately show ?case
    by simp
qed

lemma edge_list_to_csr_times_arrays:
  "\<exists>t2' t1'. edge_list_to_csr_times nv ne sv1 ev1 w1 recent first out offs
     = csr_result3 t2' t1' (csr_scatter ne sv1 ev1 w1 (offs, ev2_arr out, w2_arr out))"
proof (cases "\<exists>tr tf. recent = Some tr \<and> first = Some tf")
  case True
  then obtain tr tf where t: "recent = Some tr" "first = Some tf"
    by blast
  obtain offs' e' w' t2' t1'
    where st: "csr_scatter_times ne sv1 ev1 w1 tr tf (offs, ev2_arr out, w2_arr out, t2_arr out, t1_arr out)
                 = (offs', e', w', t2', t1')"
    by (cases "csr_scatter_times ne sv1 ev1 w1 tr tf (offs, ev2_arr out, w2_arr out, t2_arr out, t1_arr out)") auto
  then have "csr_scatter ne sv1 ev1 w1 (offs, ev2_arr out, w2_arr out) = (offs', e', w')"
    using csr_scatter_times_proj [of ne sv1 ev1 w1 tr tf offs "ev2_arr out" "w2_arr out" "t2_arr out" "t1_arr out"]
    by simp
  with st t show ?thesis
    by auto
next
  case False
  then have "edge_list_to_csr_times nv ne sv1 ev1 w1 recent first out offs
               = csr_result3 (t2_arr out) (t1_arr out) (csr_scatter ne sv1 ev1 w1 (offs, ev2_arr out, w2_arr out))"
    by (cases recent; cases first) simp_all
  then show ?thesis
    by blast
qed

text \<open>
  Claim C4: for an edge list of \<open>ne\<close> edges over \<open>nv\<close> vertices, duplicates included,
  the edge list read back from the arrays that \<open>edge_list_to_csr\<close> fills (vertex \<open>v\<close> with
  every entry of its offset range) has the same multiset of (source, destination,
  weight) triples as the input.
\<close>

theorem edge_list_to_csr_round_trip:
  assumes ok: "edge_list_ok nv ne sv1 ev1 w1 recent first out"
  shows "\<exists>c. edge_list_to_csr nv ne sv1 ev1 w1 recent first out = Some c
             \<and> mset (csr_to_edge_list nv c) = mset (edge_list ne sv1 ev1 w1)"
proof -
  let ?key = "\<lambda>i. unat (sv1 ! i)"
  let ?offs = "csr_accumulate nv (csr_histogram nv ne sv1 (offset_arr out))"
  from ok have len: "ne \<le> length sv1" "length (offset_arr out) = nv + 2"
      "ne \<le> length (ev2_arr out)" "ne \<le> length (w2_arr out)"
    and all: "list_all (\<lambda>s. unat s < nv) (take ne sv1)"
    by (simp_all add: edge_list_ok_def)
  have keys: "\<forall>i<ne. ?key i < nv"
  proof (intro allI impI)
    fix i assume i: "i < ne"
    then have "i < length (take ne sv1)"
      using len(1) by simp
    with all have "unat (take ne sv1 ! i) < nv"
      by (simp only: list_all_length)
    with i show "?key i < nv"
      by simp
  qed
  note offs = csr_offsets [OF len(2) keys]
  have init: "filled ?key nv ne ev1 w1 0 (?offs, ev2_arr out, w2_arr out)"
    unfolding filled_def using offs len by simp
  obtain offs' e' w' where st: "csr_scatter ne sv1 ev1 w1 (?offs, ev2_arr out, w2_arr out) = (offs', e', w')"
    by (cases "csr_scatter ne sv1 ev1 w1 (?offs, ev2_arr out, w2_arr out)") auto
  have fin: "filled ?key nv ne ev1 w1 ne (offs', e', w')"
    using csr_scatter_filled [OF keys init, of ne] st by simp
  obtain t2' t1' where res: "edge_list_to_csr_times nv ne sv1 ev1 w1 recent first out ?offs
      = \<lparr>offset_arr = offs', ev2_arr = e', w2_arr = w', t2_arr = t2', t1_arr = t1'\<rparr>"
    using edge_list_to_csr_times_arrays [of nv ne sv1 ev1 w1 recent first out ?offs] st
    by auto
  have "edge_list_to_csr nv ne sv1 ev1 w1 recent first out
          = Some \<lparr>offset_arr = offs', ev2_arr = e', w2_arr = w', t2_arr = t2', t1_arr = t1'\<rparr>"
    using ok res by (simp add: edge_list_to_csr_def)
  moreover have "mset (csr_to_edge_list nv \<lparr>offset_arr = offs', ev2_arr = e', w2_arr = w', t2_arr = t2', t1_arr = t1'\<rparr>)
                   = mset (edge_list ne sv1 ev1 w1)"
    by (rule read_back [OF keys fin])
  ultimately show ?thesis
    by blast
qed

theorem edge_list_to_csr_round_trip_witness:
  "edge_list_ok 3 5 [2, 0, 2, 1, 0] [1, 1, 1, 0, 1] [5, 6, 5, 7, 8] None None
     \<lparr>offset_arr = [9, 9, 9, 9, 9], ev2_arr = [0, 0, 0, 0, 0], w2_arr = [0, 0, 0, 0, 0], t2_arr = [], t1_arr = []\<rparr>
   \<and> (\<exists>c. edge_list_to_csr 3 5 [2, 0, 2, 1, 0] [1, 1, 1, 0, 1] [5, 6, 5, 7, 8] None None
              \<lparr>offset_arr = [9, 9, 9, 9, 9], ev2_arr = [0, 0, 0, 0, 0], w2_arr = [0, 0, 0, 0, 0],
               t2_arr = [], t1_arr = []\<rparr> = Some c
          \<and> mset (csr_to_edge_list 3 c) = mset (edge_list 5 [2, 0, 2, 1, 0] [1, 1, 1, 0, 1] [5, 6, 5, 7, 8]))"
proof -
  have ok: "edge_list_ok 3 5 [2, 0, 2, 1, 0] [1, 1, 1, 0, 1] [5, 6, 5, 7, 8] None None
     \<lparr>offset_arr = [9, 9, 9, 9, 9], ev2_arr = [0, 0, 0, 0, 0], w2_arr = [0, 0, 0, 0, 0], t2_arr = [], t1_arr = []\<rparr>"
    by (simp add: edge_list_ok_def long_enough_def)
  from ok edge_list_to_csr_round_trip [OF ok] show ?thesis
    by blast
qed

section \<open>Loading a snapshot: the size is not compared with the header\<close>

lemma swap_if_foreign_Some: "mem \<noteq> [] \<Longrightarrow> \<exists>mem'. swap_if_foreign mem = Some mem' \<and> length mem' = length mem"
  by (simp add: swap_if_foreign_def bs64_n_eq)

text \<open>
  Claim C6, as the code has it: \<open>snarf_graph\<close> aborts with a diagnostic exactly when
  \<^verbatim>\<open>stat\<close>, \<^verbatim>\<open>open\<close> or \<^verbatim>\<open>xread\<close> fails or the size of the file is not a multiple of
  eight bytes. A file of at least three whole words is loaded whatever its size is:
  the comparison of the size with \<open>3 + (nv + 1) + 2 * ne\<close> words is not compiled.
\<close>

theorem snarf_graph_aborts_iff:
  "((\<exists>msg. snarf_graph io = Inl (Abort msg))
      \<longleftrightarrow> (case io of File_read f \<Rightarrow> st_size f mod 8 \<noteq> 0 | _ \<Rightarrow> True))
   \<and> (st_size f mod 8 = 0 \<and> 3 \<le> length (file_words f)
        \<longrightarrow> (\<exists>g. snarf_graph (File_read f) = Inr g))"
proof (intro conjI impI)
  show "(\<exists>msg. snarf_graph io = Inl (Abort msg))
          \<longleftrightarrow> (case io of File_read f \<Rightarrow> st_size f mod 8 \<noteq> 0 | _ \<Rightarrow> True)"
  proof (cases io)
    case (File_read h)
    show ?thesis
    proof (cases "file_words h = []")
      case True
      with File_read show ?thesis
        by (simp add: swap_if_foreign_def)
    next
      case False
      then obtain mem' where "swap_if_foreign (file_words h) = Some mem'"
        using swap_if_foreign_Some by blast
      with File_read show ?thesis
        by (simp add: decode_snapshot_def)
    qed
  qed simp_all
next
  assume a: "st_size f mod 8 = 0 \<and> 3 \<le> length (file_words f)"
  then have "file_words f \<noteq> []"
    by auto
  then obtain mem' where "swap_if_foreign (file_words f) = Some mem'" "length mem' = length (file_words f)"
    using swap_if_foreign_Some by blast
  with a show "\<exists>g. snarf_graph (File_read f) = Inr g"
    by (simp add: decode_snapshot_def)
qed

theorem snarf_graph_aborts_iff_witness:
  "st_size \<lparr>file_words = [0xCDAB341200000000, 0x0100000000000000, 0, 0, 0, 0, 0], trailing_bytes = 0\<rparr> mod 8 = 0
   \<and> 3 \<le> length (file_words \<lparr>file_words = [0xCDAB341200000000, 0x0100000000000000, 0, 0, 0, 0, 0], trailing_bytes = 0\<rparr>)
   \<and> (\<exists>g. snarf_graph (File_read \<lparr>file_words = [0xCDAB341200000000, 0x0100000000000000, 0, 0, 0, 0, 0],
                                      trailing_bytes = 0\<rparr>) = Inr g)
   \<and> (\<exists>msg. snarf_graph (Open_fails 48) = Inl (Abort msg))"
  using snarf_graph_aborts_iff
          [of "Open_fails 48"
              "\<lparr>file_words = [0xCDAB341200000000, 0x0100000000000000, 0, 0, 0, 0, 0], trailing_bytes = 0\<rparr>"]
  by (simp add: st_size_def)

text \<open>
  A file of six words whose header announces \<open>nv = 1\<close> and \<open>ne = 0\<close>, that is five
  words, is loaded without a diagnostic.
\<close>

theorem snarf_graph_accepts_size_mismatch:
  "snarf_graph (File_read \<lparr>file_words = [0x1234ABCD, 1, 0, 0, 0, 99], trailing_bytes = 0\<rparr>)
     = Inr \<lparr>nv_out = 1, ne_out = 0, off_out = 3, ind_out = 5, weight_out = 5,
            mem_handle = [0x1234ABCD, 1, 0, 0, 0, 99]\<rparr>
   \<and> announced_words \<lparr>nv_out = 1, ne_out = 0, off_out = 3, ind_out = 5, weight_out = 5,
                        mem_handle = [0x1234ABCD, 1, 0, 0, 0, 99]\<rparr> = 5
   \<and> st_size \<lparr>file_words = [0x1234ABCD, 1, 0, 0, 0, 99], trailing_bytes = 0\<rparr> = 8 * 6"
  by (simp add: st_size_def swap_if_foreign_def decode_snapshot_def announced_words_def)

section \<open>Sorting the adjacency list of a vertex: the walks and the rounds\<close>

text \<open>
  The walks of \<open>stinger_sort_edge_list\<close> follow the links of the pool, which no loop
  body changes: on a chain that ends, a walk is a fold of its body over the blocks of
  the chain.
\<close>

lemma links_length: "links pool' = links pool \<Longrightarrow> length pool' = length pool"
  by (metis length_map links_def)

lemma links_nth:
  assumes "links pool' = links pool" "b < length pool"
  shows "next_block (pool' ! b) = next_block (pool ! b)" and "etype (pool' ! b) = etype (pool ! b)"
proof -
  have "b < length pool'"
    using assms links_length by metis
  then have "links pool' ! b = (next_block (pool' ! b), etype (pool' ! b))"
    by (simp add: links_def)
  moreover have "links pool ! b = (next_block (pool ! b), etype (pool ! b))"
    using assms(2) by (simp add: links_def)
  ultimately show "next_block (pool' ! b) = next_block (pool ! b)" "etype (pool' ! b) = etype (pool ! b)"
    using assms(1) by simp_all
qed

lemma links_update:
  assumes "next_block eb = next_block (pool ! b)" "etype eb = etype (pool ! b)"
  shows "links (pool[b := eb]) = links pool"
proof (cases "b < length pool")
  case True
  have "links (pool[b := eb]) = (links pool)[b := (next_block (pool ! b), etype (pool ! b))]"
    using assms by (simp add: links_def map_update)
  also have "(next_block (pool ! b), etype (pool ! b)) = links pool ! b"
    using True by (simp add: links_def)
  finally show ?thesis
    by simp
next
  case False
  then have "pool[b := eb] = pool"
    by (simp add: list_update_beyond)
  then show ?thesis by simp
qed

lemma links_put_edge: "links (put_edge b i e pool) = links pool"
  unfolding put_edge_def by (rule links_update) simp_all

lemma run_links:
  assumes "links pool' = links pool"
  shows "run pool' ty cur bs = run pool ty cur bs"
proof (induction bs arbitrary: cur)
  case Nil
  show ?case
    using links_length [OF assms] links_nth(2) [OF assms] by auto
next
  case (Cons b bs)
  show ?case
    using links_length [OF assms] links_nth [OF assms] Cons by auto
qed

lemma run_in_range: "run pool ty cur bs \<Longrightarrow> b \<in> set bs \<Longrightarrow> b \<noteq> 0 \<and> b < length pool \<and> etype (pool ! b) = ty"
  by (induction bs arbitrary: cur) auto

lemma walk_chain_run:
  assumes body: "\<And>b st. links (fst (body b st)) = links (fst st)"
  shows "run (fst st) ty cur bs \<Longrightarrow> walk_chain body ty cur st = Some (fold body bs st)"
proof (induction bs arbitrary: cur st)
  case Nil
  then show ?case
    by (subst walk_chain.simps) auto
next
  case (Cons b bs)
  then have b: "cur = b" "b \<noteq> 0" "b < length (fst st)" "etype (fst st ! b) = ty"
    and rest: "run (fst st) ty (next_block (fst st ! b)) bs"
    by simp_all
  have "next_block (fst (body b st) ! b) = next_block (fst st ! b)"
    using links_nth(1) [OF body b(3)] .
  moreover have "run (fst (body b st)) ty (next_block (fst st ! b)) bs"
    using rest run_links [OF body] by simp
  ultimately have "walk_chain body ty (next_block (fst (body b st) ! b)) (body b st) = Some (fold body bs (body b st))"
    using Cons.IH by simp
  then show ?case
    using b by (subst walk_chain.simps) simp
qed

lemma find_start_skipped: "skipped pool ty cur pre start \<Longrightarrow> find_start pool ty cur = Some start"
proof (induction pre arbitrary: cur)
  case Nil
  then show ?case
    by (subst find_start.simps) auto
next
  case (Cons b pre)
  then show ?case
    by (subst find_start.simps) auto
qed

lemma slack_less: "neighbor b <s neighbor a \<Longrightarrow> slack a < slack b"
proof -
  assume "neighbor b <s neighbor a"
  then have "sint (neighbor b) < sint (neighbor a)"
    by (simp add: word_sless_alt)
  moreover have "sint (neighbor a) < 2 ^ 63"
    using sint_lt [of "neighbor a"] by simp
  ultimately show ?thesis
    by (simp add: slack_def)
qed

lemma disorder_transposed_at:
  assumes "slack a < slack b"
  shows "disorder k (as @ b # a # cs) < disorder k (as @ a # b # cs)"
proof (induction as arbitrary: k)
  case Nil
  have "k * slack b + Suc k * slack a < k * slack a + Suc k * slack b"
    using assms by simp
  then show ?case by simp
next
  case (Cons x as)
  then show ?case by simp
qed

lemma transposed_disorder: "transposed xs ys \<Longrightarrow> disorder 0 ys < disorder 0 xs"
  unfolding transposed_def using disorder_transposed_at slack_less by blast

lemma transposed_mset: "transposed xs ys \<Longrightarrow> mset ys = mset xs"
  unfolding transposed_def by auto

lemma slots_Cons: "slots pool (b # bs) = edges (pool ! b) @ slots pool bs"
  by (simp add: slots_def)

lemma slots_append: "slots pool (xs @ ys) = slots pool xs @ slots pool ys"
  by (simp add: slots_def)

lemma slots_cong: "(\<And>b. b \<in> set bs \<Longrightarrow> edges (pool' ! b) = edges (pool ! b)) \<Longrightarrow> slots pool' bs = slots pool bs"
  unfolding slots_def by (rule arg_cong [where f = concat]) simp

text \<open>Replacing block \<open>b\<close> changes the part of the array that belongs to \<open>b\<close>.\<close>

lemma slots_update:
  assumes "b < length pool" "b \<notin> set xs" "b \<notin> set ys"
  shows "slots (pool[b := eb]) (xs @ b # ys) = slots pool xs @ edges eb @ slots pool ys"
proof -
  have "slots (pool[b := eb]) xs = slots pool xs"
    using assms(2) by (intro slots_cong) (metis nth_list_update_neq)
  moreover have "slots (pool[b := eb]) ys = slots pool ys"
    using assms(3) by (intro slots_cong) (metis nth_list_update_neq)
  ultimately show ?thesis
    using assms(1) by (simp add: slots_append slots_Cons)
qed

lemma split_at_member: "b \<in> set bs \<Longrightarrow> distinct bs \<Longrightarrow> \<exists>xs ys. bs = xs @ b # ys \<and> b \<notin> set xs \<and> b \<notin> set ys"
  by (metis distinct_append distinct.simps(2) split_list disjoint_insert(1) list.simps(15) Int_commute)

lemma swap_in_list: "(p @ a # b # q)[Suc (length p) := a, length p := b] = p @ b # a # q"
  by (simp add: list_update_append)

lemma swap_neighbours:
  assumes "Suc i < length es"
  obtains p q where "es = p @ es ! i # es ! Suc i # q"
    and "es[Suc i := es ! i, i := es ! Suc i] = p @ es ! Suc i # es ! i # q"
proof -
  have i: "i < length es"
    using assms by simp
  define p q where "p = take i es" and "q = drop (Suc (Suc i)) es"
  have l: "length p = i"
    using i by (simp add: p_def)
  have es: "es = p @ es ! i # es ! Suc i # q"
    unfolding p_def q_def using assms i by (metis Cons_nth_drop_Suc append_take_drop_id)
  have "(p @ es ! i # es ! Suc i # q)[Suc (length p) := es ! i, length p := es ! Suc i]
          = p @ es ! Suc i # es ! i # q"
    by (rule swap_in_list)
  then have "es[Suc i := es ! i, i := es ! Suc i] = p @ es ! Suc i # es ! i # q"
    unfolding l using es by simp
  with es show thesis
    by (rule that)
qed

lemma progress_refl: "progress bs st st"
  by (simp add: progress_def)

lemma progress_changed:
  assumes "progress bs st st'" "st' \<noteq> st"
  shows "\<not> snd st'" and "links (fst st') = links (fst st)"
    and "\<And>b. b \<in> set bs \<Longrightarrow> length (edges (fst st' ! b)) = length (edges (fst st ! b))"
    and "mset (slots (fst st') bs) = mset (slots (fst st) bs)"
    and "disorder 0 (slots (fst st') bs) < disorder 0 (slots (fst st) bs)"
  using assms unfolding progress_def by blast+

lemma progress_trans:
  assumes "progress bs st st'" "progress bs st' st''"
  shows "progress bs st st''"
proof (cases "st' = st")
  case True
  with assms(2) show ?thesis by simp
next
  case 1: False
  show ?thesis
  proof (cases "st'' = st'")
    case True
    with assms(1) show ?thesis by simp
  next
    case 2: False
    note a = progress_changed [OF assms(1) 1] and b = progress_changed [OF assms(2) 2]
    have "\<not> snd st''"
      by (rule b(1))
    moreover have "links (fst st'') = links (fst st)"
      using a(2) b(2) by simp
    moreover have "\<forall>c\<in>set bs. length (edges (fst st'' ! c)) = length (edges (fst st ! c))"
      using a(3) b(3) by simp
    moreover have "mset (slots (fst st'') bs) = mset (slots (fst st) bs)"
      using a(4) b(4) by simp
    moreover have "disorder 0 (slots (fst st'') bs) < disorder 0 (slots (fst st) bs)"
      using a(5) b(5) by (rule less_trans [rotated])
    ultimately show ?thesis
      unfolding progress_def by blast
  qed
qed

lemma progress_inv:
  assumes "chain_inv ebs ty start bs (fst st)" "progress bs st st'"
  shows "chain_inv ebs ty start bs (fst st')"
proof (cases "st' = st")
  case True
  with assms(1) show ?thesis by simp
next
  case False
  note a = progress_changed [OF assms(2) False]
  show ?thesis
    using assms(1) a(3) unfolding chain_inv_def by (simp add: run_links [OF a(2)])
qed

lemma progressI:
  assumes "links pool' = links pool"
    and "\<And>b. b \<in> set bs \<Longrightarrow> length (edges (pool' ! b)) = length (edges (pool ! b))"
    and "transposed (slots pool bs) (slots pool' bs)"
  shows "progress bs (pool, f) (pool', False)"
  using assms by (simp add: progress_def transposed_mset transposed_disorder)

lemma swap_within_progress:
  assumes inv: "chain_inv ebs ty start bs pool" and b: "b \<in> set bs" and i: "Suc i < ebs"
  shows "progress bs (pool, f) (swap_within b i (pool, f))"
proof (cases "neighbor (edges (pool ! b) ! (i + 1)) <s neighbor (edges (pool ! b) ! i)")
  case False
  then show ?thesis
    by (simp add: progress_refl)
next
  case True
  let ?es = "edges (pool ! b)"
  let ?es' = "?es[i + 1 := ?es ! i, i := ?es ! (i + 1)]"
  let ?pool' = "pool[b := (pool ! b)\<lparr>edges := ?es'\<rparr>]"
  from inv have run: "run pool ty start bs" and dist: "distinct bs"
    and len: "\<And>c. c \<in> set bs \<Longrightarrow> length (edges (pool ! c)) = ebs"
    by (simp_all add: chain_inv_def)
  have bl: "b < length pool"
    using run_in_range [OF run b] by simp
  have res: "swap_within b i (pool, f) = (?pool', False)"
    using True by simp
  obtain xs ys where bs: "bs = xs @ b # ys" "b \<notin> set xs" "b \<notin> set ys"
    using split_at_member [OF b dist] by blast
  have "Suc i < length ?es"
    using i len [OF b] by simp
  then obtain p q where es: "?es = p @ ?es ! i # ?es ! Suc i # q"
    and es': "?es[Suc i := ?es ! i, i := ?es ! Suc i] = p @ ?es ! Suc i # ?es ! i # q"
    by (rule swap_neighbours)
  have new: "slots ?pool' bs = slots pool xs @ ?es' @ slots pool ys"
    unfolding bs(1) using slots_update [OF bl bs(2) bs(3)] by simp
  have old: "slots pool bs = slots pool xs @ ?es @ slots pool ys"
    unfolding bs(1) by (simp add: slots_append slots_Cons)
  have "transposed (slots pool bs) (slots ?pool' bs)"
    unfolding transposed_def
  proof (intro exI conjI)
    show "slots pool bs = (slots pool xs @ p) @ ?es ! i # ?es ! Suc i # (q @ slots pool ys)"
      unfolding old by (subst es) simp
    show "slots ?pool' bs = (slots pool xs @ p) @ ?es ! Suc i # ?es ! i # (q @ slots pool ys)"
      unfolding new using es' by simp
    show "neighbor (?es ! Suc i) <s neighbor (?es ! i)"
      using True by simp
  qed
  moreover have "links ?pool' = links pool"
    by (rule links_update) simp_all
  moreover have "length (edges (?pool' ! c)) = length (edges (pool ! c))" for c
    using bl by (cases "c = b") simp_all
  ultimately show ?thesis
    unfolding res by (intro progressI) auto
qed

lemma run_split: "run pool ty cur (xs @ b # rest) \<Longrightarrow> run pool ty (next_block (pool ! b)) rest"
  by (induction xs arbitrary: cur) auto

text \<open>
  When the exchange with the next block takes place, that block is the one that follows
  in the chain.
\<close>

lemma successor_in_run:
  assumes run: "run pool ty start bs" and dist: "distinct bs" and b: "b \<in> set bs"
    and nx: "next_block (pool ! b) \<noteq> 0" "etype (pool ! next_block (pool ! b)) = ty"
  obtains xs ys where "bs = xs @ b # next_block (pool ! b) # ys"
    and "b \<notin> set xs" "next_block (pool ! b) \<notin> set xs" "b \<notin> set ys" "next_block (pool ! b) \<notin> set ys"
    and "b \<noteq> next_block (pool ! b)"
proof -
  obtain xs rest where bs: "bs = xs @ b # rest" "b \<notin> set xs" "b \<notin> set rest"
    using split_at_member [OF b dist] by blast
  have r: "run pool ty (next_block (pool ! b)) rest"
    using run unfolding bs(1) by (rule run_split)
  obtain ys where rest: "rest = next_block (pool ! b) # ys"
    using r nx by (cases rest) auto
  have "distinct (xs @ b # next_block (pool ! b) # ys)"
    using dist unfolding bs(1) rest .
  then have "next_block (pool ! b) \<notin> set xs" "next_block (pool ! b) \<notin> set ys" "b \<noteq> next_block (pool ! b)"
    by auto
  moreover have "b \<notin> set ys"
    using bs(3) rest by simp
  ultimately show thesis
    using bs rest by (intro that [of xs ys]) simp_all
qed

lemma last_slot:
  assumes "0 < length es"
  shows "es = butlast es @ [es ! (length es - 1)]" and "es[length es - 1 := x] = butlast es @ [x]"
proof -
  have ne: "es \<noteq> []"
    using assms by auto
  then have "butlast es @ [last es] = es"
    by simp
  moreover have "last es = es ! (length es - 1)"
    using ne by (rule last_conv_nth)
  ultimately show 1: "es = butlast es @ [es ! (length es - 1)]"
    by metis
  have "(butlast es @ [es ! (length es - 1)])[length (butlast es) := x] = butlast es @ [x]"
    by (simp add: list_update_append del: length_butlast)
  then show "es[length es - 1 := x] = butlast es @ [x]"
    using 1 by simp
qed

lemma first_slot:
  assumes "0 < length es"
  shows "es = es ! 0 # tl es" and "es[0 := x] = x # tl es"
  using assms by (cases es; simp)+

lemma swap_across_progress:
  assumes inv: "chain_inv ebs ty start bs pool" and b: "b \<in> set bs" and i: "i = ebs - 1"
  shows "progress bs (pool, f) (swap_across ty b i (pool, f))"
proof (cases "next_block (pool ! b) \<noteq> 0 \<and> etype (pool ! next_block (pool ! b)) = ty
                \<and> neighbor (edges (pool ! next_block (pool ! b)) ! 0) <s neighbor (edges (pool ! b) ! i)")
  case False
  then show ?thesis
    by (auto simp: progress_refl)
next
  case True
  define nx where "nx = next_block (pool ! b)"
  let ?eb = "edges (pool ! b)"
  let ?en = "edges (pool ! nx)"
  let ?pool1 = "pool[nx := (pool ! nx)\<lparr>edges := ?en[0 := ?eb ! i]\<rparr>]"
  let ?pool' = "?pool1[b := (pool ! b)\<lparr>edges := ?eb[i := ?en ! 0]\<rparr>]"
  from inv have run: "run pool ty start bs" and dist: "distinct bs" and ebs: "0 < ebs"
    and len: "\<And>c. c \<in> set bs \<Longrightarrow> length (edges (pool ! c)) = ebs"
    by (simp_all add: chain_inv_def)
  from True have nx0: "next_block (pool ! b) \<noteq> 0" and nxt: "etype (pool ! next_block (pool ! b)) = ty"
    and wrong: "neighbor (?en ! 0) <s neighbor (?eb ! i)"
    by (simp_all add: nx_def)
  obtain xs ys where bs: "bs = xs @ b # nx # ys"
    and notin: "b \<notin> set xs" "nx \<notin> set xs" "b \<notin> set ys" "nx \<notin> set ys" and bnx: "b \<noteq> nx"
    using successor_in_run [OF run dist b nx0 nxt] unfolding nx_def by metis
  have nxin: "nx \<in> set bs"
    using bs by simp
  have bl: "b < length pool" and nl: "nx < length pool"
    using run_in_range [OF run b] run_in_range [OF run nxin] by simp_all
  have p1b: "?pool1 ! b = pool ! b"
    using bnx by simp
  have res: "swap_across ty b i (pool, f) = (?pool', False)"
    using True p1b by (simp add: put_edge_def nx_def)
  have lb: "0 < length ?eb" "i = length ?eb - 1" and ln: "0 < length ?en"
    using len [OF b] len [OF nxin] ebs i by simp_all
  have old: "slots pool bs = slots pool xs @ ?eb @ ?en @ slots pool ys"
    unfolding bs by (simp add: slots_append slots_Cons)
  have "slots ?pool' (xs @ b # (nx # ys))
          = slots ?pool1 xs @ ?eb[i := ?en ! 0] @ slots ?pool1 (nx # ys)"
    using slots_update [of b ?pool1 xs "nx # ys"] bl notin bnx by simp
  moreover have "slots ?pool1 xs = slots pool xs"
    using notin(2) by (intro slots_cong) (metis nth_list_update_neq)
  moreover have "slots ?pool1 (nx # ys) = ?en[0 := ?eb ! i] @ slots pool ys"
    using slots_update [of nx pool "[]" ys] nl notin(4) by (simp add: slots_def)
  ultimately have new: "slots ?pool' bs = slots pool xs @ ?eb[i := ?en ! 0] @ ?en[0 := ?eb ! i] @ slots pool ys"
    unfolding bs by simp
  have "transposed (slots pool bs) (slots ?pool' bs)"
    unfolding transposed_def
  proof (intro exI conjI)
    show "slots pool bs = (slots pool xs @ butlast ?eb) @ ?eb ! i # ?en ! 0 # (tl ?en @ slots pool ys)"
      unfolding old using last_slot(1) [OF lb(1)] first_slot(1) [OF ln] lb(2)
      by (metis append.assoc append_Cons append_Nil)
    show "slots ?pool' bs = (slots pool xs @ butlast ?eb) @ ?en ! 0 # ?eb ! i # (tl ?en @ slots pool ys)"
      unfolding new using last_slot(2) [OF lb(1)] first_slot(2) [OF ln] lb(2)
      by (metis append.assoc append_Cons append_Nil)
    show "neighbor (?en ! 0) <s neighbor (?eb ! i)"
      by (rule wrong)
  qed
  moreover have "links ?pool' = links pool"
  proof -
    have "links ?pool1 = links pool"
      by (rule links_update) simp_all
    moreover have "links ?pool' = links ?pool1"
      by (rule links_update) (simp_all add: p1b)
    ultimately show ?thesis by simp
  qed
  moreover have "length (edges (?pool' ! c)) = length (edges (pool ! c))" for c
    using bl nl by (cases "c = b"; cases "c = nx") simp_all
  ultimately show ?thesis
    unfolding res by (intro progressI) auto
qed

lemma strided_bound: "i \<in> set (strided a lim step) \<Longrightarrow> i < lim"
proof (induction a lim step rule: strided.induct)
  case (1 a lim step)
  then show ?case
    by (subst (asm) strided.simps) (auto split: if_splits)
qed

lemma strided_member:
  "a \<le> i \<Longrightarrow> i < lim \<Longrightarrow> even (i - a) \<Longrightarrow> i \<in> set (strided a lim 2)"
proof (induction a lim "2::nat" rule: strided.induct)
  case (1 a lim)
  show ?case
  proof (cases "i = a")
    case True
    with 1 show ?thesis
      by (subst strided.simps) simp
  next
    case False
    with "1.prems" have "a + 2 \<le> i" "even (i - (a + 2))"
      by presburger+
    then have "i \<in> set (strided (a + 2) lim 2)"
      using "1.hyps" "1.prems" by simp
    then show ?thesis
      using "1.prems" by (subst strided.simps) simp
  qed
qed

lemma every_slot_visited:
  assumes "i < ebs"
  shows "i \<in> set (strided 1 ebs 2) \<or> i \<in> set (strided 0 ebs 2)"
proof (cases "even i")
  case True
  then have "i \<in> set (strided 0 ebs 2)"
    using assms by (intro strided_member) simp_all
  then show ?thesis ..
next
  case False
  then have "1 \<le> i" "even (i - 1)"
    by (auto elim: oddE)
  then have "i \<in> set (strided 1 ebs 2)"
    using assms by (intro strided_member) simp_all
  then show ?thesis ..
qed

lemma block_pass_steps: "block_pass ebs ty first cur = fold (\<lambda>s. s) (map (slot_step ebs ty cur) (strided first ebs 2))"
proof -
  have "(\<lambda>i st. if i < ebs - 1 then swap_within cur i st else swap_across ty cur i st) = slot_step ebs ty cur"
    by (intro ext) (simp add: slot_step_def)
  then show ?thesis
    by (simp add: block_pass_def fold_map comp_def)
qed

lemma pass_as_steps: "fold (block_pass ebs ty first) bs st = fold (\<lambda>s. s) (pass_steps ebs ty first bs) st"
  by (induction bs arbitrary: st) (simp_all add: pass_steps_def block_pass_steps)

lemma slot_step_progress:
  assumes "chain_inv ebs ty start bs pool" "b \<in> set bs" "i < ebs"
  shows "progress bs (pool, f) (slot_step ebs ty b i (pool, f))"
proof (cases "i < ebs - 1")
  case True
  then have "Suc i < ebs" by simp
  moreover have "slot_step ebs ty b i = swap_within b i"
    using True by (simp add: slot_step_def)
  ultimately show ?thesis
    using swap_within_progress [OF assms(1,2), of i f] by (simp only:)
next
  case False
  with assms(3) have "i = ebs - 1" by simp
  moreover have "slot_step ebs ty b i = swap_across ty b i"
    using False by (simp add: slot_step_def)
  ultimately show ?thesis
    using swap_across_progress [OF assms(1,2), of i f] by (simp only:)
qed

lemma pass_steps_member:
  assumes "s \<in> set (pass_steps ebs ty first bs)"
  obtains b i where "b \<in> set bs" "i < ebs" "s = slot_step ebs ty b i"
  using assms unfolding pass_steps_def by (auto dest: strided_bound)

lemma pass_step_progress:
  assumes "s \<in> set (pass_steps ebs ty first bs)" "chain_inv ebs ty start bs (fst st)"
  shows "progress bs st (s st)"
proof -
  obtain b i where "b \<in> set bs" "i < ebs" "s = slot_step ebs ty b i"
    using assms(1) by (rule pass_steps_member)
  then show ?thesis
    using slot_step_progress [OF assms(2), of b i "snd st"] by simp
qed

lemma fold_steps_progress:
  assumes "\<And>s st. s \<in> set ss \<Longrightarrow> chain_inv ebs ty start bs (fst st) \<Longrightarrow> progress bs st (s st)"
    and "chain_inv ebs ty start bs (fst st)"
  shows "progress bs st (fold (\<lambda>s. s) ss st)"
  using assms
proof (induction ss arbitrary: st)
  case Nil
  then show ?case by (simp add: progress_refl)
next
  case (Cons s ss)
  have 1: "progress bs st (s st)"
    using Cons.prems by simp
  then have "chain_inv ebs ty start bs (fst (s st))"
    using Cons.prems(2) progress_inv by blast
  then have "progress bs (s st) (fold (\<lambda>s. s) ss (s st))"
    using Cons.IH Cons.prems(1) by simp
  from progress_trans [OF 1 this] show ?case
    by simp
qed

lemma fold_steps_unchanged:
  assumes "\<And>s st. s \<in> set ss \<Longrightarrow> chain_inv ebs ty start bs (fst st) \<Longrightarrow> progress bs st (s st)"
    and "chain_inv ebs ty start bs (fst st)" and "snd (fold (\<lambda>s. s) ss st)"
  shows "\<forall>s\<in>set ss. s st = st"
  using assms
proof (induction ss arbitrary: st)
  case Nil
  then show ?case by simp
next
  case (Cons s ss)
  have 1: "progress bs st (s st)"
    using Cons.prems by simp
  then have inv': "chain_inv ebs ty start bs (fst (s st))"
    using Cons.prems(2) progress_inv by blast
  have 2: "progress bs (s st) (fold (\<lambda>s. s) ss (s st))"
    using fold_steps_progress [of ss ebs ty start bs "s st"] Cons.prems(1) inv' by simp
  have same: "s st = st"
  proof (rule ccontr)
    assume "s st \<noteq> st"
    then have "\<not> snd (s st)"
      using progress_changed(1) [OF 1] by simp
    moreover have "\<not> snd (fold (\<lambda>s. s) ss (s st))" if "fold (\<lambda>s. s) ss (s st) \<noteq> s st"
      using progress_changed(1) [OF 2 that] .
    ultimately have "\<not> snd (fold (\<lambda>s. s) ss (s st))"
      by (cases "fold (\<lambda>s. s) ss (s st) = s st") simp_all
    with Cons.prems(3) show False
      by simp
  qed
  then have "\<forall>s'\<in>set ss. s' st = st"
    using Cons.IH [of st] Cons.prems by simp
  with same show ?case
    by simp
qed

lemma links_swap_within: "links (fst (swap_within b i st)) = links (fst st)"
proof (cases st)
  case (Pair pool f)
  have "links (pool[b := (pool ! b)\<lparr>edges := es\<rparr>]) = links pool" for es
    by (rule links_update) simp_all
  with Pair show ?thesis by simp
qed

lemma links_swap_across: "links (fst (swap_across ty b i st)) = links (fst st)"
  by (cases st) (simp add: links_put_edge)

lemma links_slot_step: "links (fst (slot_step ebs ty b i st)) = links (fst st)"
  by (simp add: slot_step_def links_swap_within links_swap_across)

lemma links_fold_steps: "(\<And>s st. s \<in> set ss \<Longrightarrow> links (fst (s st)) = links (fst st)) \<Longrightarrow>
    links (fst (fold (\<lambda>s. s) ss st)) = links (fst st)"
  by (induction ss arbitrary: st) simp_all

lemma links_block_pass: "links (fst (block_pass ebs ty first b st)) = links (fst st)"
  unfolding block_pass_steps by (rule links_fold_steps) (auto simp: links_slot_step)

lemma swap_within_unchanged:
  "swap_within b i (pool, True) = (pool, True) \<Longrightarrow>
     sint (neighbor (edges (pool ! b) ! i)) \<le> sint (neighbor (edges (pool ! b) ! Suc i))"
  by (auto simp: word_sless_alt split: if_splits)

lemma swap_across_unchanged:
  "swap_across ty b i (pool, True) = (pool, True) \<Longrightarrow>
     next_block (pool ! b) \<noteq> 0 \<Longrightarrow> etype (pool ! next_block (pool ! b)) = ty \<Longrightarrow>
     sint (neighbor (edges (pool ! b) ! i)) \<le> sint (neighbor (edges (pool ! next_block (pool ! b)) ! 0))"
  by (auto simp: word_sless_alt split: if_splits)

lemma unchanged_in_order:
  assumes "\<And>i. i < ebs \<Longrightarrow> slot_step ebs ty b i (pool, True) = (pool, True)" and "0 < ebs"
  shows "in_order ebs ty pool b"
  unfolding in_order_def
proof (intro conjI allI impI)
  fix i assume i: "Suc i < ebs"
  then have "i < ebs - 1"
    by arith
  then have "slot_step ebs ty b i = swap_within b i"
    by (simp add: slot_step_def)
  moreover have "slot_step ebs ty b i (pool, True) = (pool, True)"
    using assms(1) [of i] i by simp
  ultimately show "sint (neighbor (edges (pool ! b) ! i)) \<le> sint (neighbor (edges (pool ! b) ! Suc i))"
    using swap_within_unchanged by simp
next
  assume nx: "next_block (pool ! b) \<noteq> 0 \<and> etype (pool ! next_block (pool ! b)) = ty"
  have "slot_step ebs ty b (ebs - 1) = swap_across ty b (ebs - 1)"
    by (simp add: slot_step_def)
  moreover have "slot_step ebs ty b (ebs - 1) (pool, True) = (pool, True)"
    using assms by simp
  ultimately show "sint (neighbor (edges (pool ! b) ! (ebs - 1)))
                     \<le> sint (neighbor (edges (pool ! next_block (pool ! b)) ! 0))"
    using swap_across_unchanged nx by simp
qed

lemma sorted_le_last:
  fixes xs :: "int list"
  shows "sorted xs \<Longrightarrow> x \<in> set xs \<Longrightarrow> x \<le> last xs"
  by (induction xs) auto

lemma sorted_append_touching:
  fixes xs ys :: "int list"
  assumes "sorted xs" "sorted ys" "xs \<noteq> [] \<Longrightarrow> ys \<noteq> [] \<Longrightarrow> last xs \<le> hd ys"
  shows "sorted (xs @ ys)"
proof (cases "xs = [] \<or> ys = []")
  case True
  with assms show ?thesis by auto
next
  case False
  then have ne: "xs \<noteq> []" "ys \<noteq> []" by simp_all
  have "x \<le> y" if "x \<in> set xs" "y \<in> set ys" for x y
  proof -
    have "x \<le> last xs"
      using assms(1) that(1) by (rule sorted_le_last)
    moreover have "hd ys \<le> y"
      using assms(2) that(2) ne(2) by (cases ys) auto
    ultimately show ?thesis
      using assms(3) [OF ne] by simp
  qed
  with assms(1,2) show ?thesis
    by (simp add: sorted_append)
qed

lemma in_order_sorted:
  assumes "0 < ebs"
  shows "run pool ty cur bs \<Longrightarrow> (\<forall>b\<in>set bs. length (edges (pool ! b)) = ebs \<and> in_order ebs ty pool b) \<Longrightarrow>
         sorted (neighbor_ids pool bs)"
proof (induction bs arbitrary: cur)
  case Nil
  then show ?case by (simp add: neighbor_ids_def slots_def)
next
  case (Cons b bs)
  let ?key = "\<lambda>e. sint (neighbor e)"
  let ?es = "edges (pool ! b)"
  from Cons.prems have len: "length ?es = ebs" and ord: "in_order ebs ty pool b"
    and rest: "run pool ty (next_block (pool ! b)) bs"
    by simp_all
  have split: "neighbor_ids pool (b # bs) = map ?key ?es @ neighbor_ids pool bs"
    by (simp add: neighbor_ids_def slots_Cons)
  have 1: "sorted (map ?key ?es)"
    unfolding sorted_iff_nth_Suc using ord len by (simp add: in_order_def)
  have 2: "sorted (neighbor_ids pool bs)"
    using Cons.IH [OF rest] Cons.prems(2) by simp
  have 3: "last (map ?key ?es) \<le> hd (neighbor_ids pool bs)" if "neighbor_ids pool bs \<noteq> []"
  proof -
    from that obtain nx ys where bs: "bs = nx # ys"
      by (cases bs) (auto simp: neighbor_ids_def slots_def)
    with rest have nx: "next_block (pool ! b) = nx" "nx \<noteq> 0" "etype (pool ! nx) = ty"
      by simp_all
    have lnx: "length (edges (pool ! nx)) = ebs"
      using Cons.prems(2) bs by simp
    then have "hd (neighbor_ids pool bs) = ?key (edges (pool ! nx) ! 0)"
      using assms unfolding bs neighbor_ids_def slots_Cons by (cases "edges (pool ! nx)") auto
    moreover have "last (map ?key ?es) = ?key (?es ! (ebs - 1))"
    proof -
      have "?es \<noteq> []" using len assms by auto
      then have "last (map ?key ?es) = ?key (last ?es)"
        by (simp add: last_map)
      also have "last ?es = ?es ! (ebs - 1)"
        using \<open>?es \<noteq> []\<close> len by (simp add: last_conv_nth)
      finally show ?thesis .
    qed
    ultimately show ?thesis
      using ord nx unfolding in_order_def by simp
  qed
  show ?case
    unfolding split using 1 2 3 by (intro sorted_append_touching) simp_all
qed

lemma run_unique: "run pool ty cur bs \<Longrightarrow> run pool ty cur cs \<Longrightarrow> bs = cs"
proof (induction bs arbitrary: cur cs)
  case Nil
  then show ?case by (cases cs) auto
next
  case (Cons b bs)
  then show ?case by (cases cs) auto
qed

lemma run_suffix: "run pool ty cur (xs @ b # ys) \<Longrightarrow> run pool ty b (b # ys)"
  by (induction xs arbitrary: cur) auto

lemma run_distinct: "run pool ty cur bs \<Longrightarrow> distinct bs"
proof (induction bs arbitrary: cur)
  case Nil
  show ?case by simp
next
  case (Cons b bs)
  then have rest: "run pool ty (next_block (pool ! b)) bs" and cur: "cur = b"
    by simp_all
  have "b \<notin> set bs"
  proof
    assume "b \<in> set bs"
    then obtain xs ys where bs: "bs = xs @ b # ys"
      by (auto simp: in_set_conv_decomp)
    with rest have "run pool ty b (b # ys)"
      using run_suffix by blast
    moreover have "run pool ty b (b # bs)"
      using Cons.prems cur by simp
    ultimately have "b # ys = b # bs"
      by (rule run_unique)
    with bs show False by simp
  qed
  with Cons.IH [OF rest] show ?case by simp
qed

lemma walk_pass:
  assumes "run (fst st) ty start bs"
  shows "walk_chain (block_pass ebs ty first) ty start st = Some (fold (\<lambda>s. s) (pass_steps ebs ty first bs) st)"
proof -
  have "walk_chain (block_pass ebs ty first) ty start st = Some (fold (block_pass ebs ty first) bs st)"
    using assms by (rule walk_chain_run [OF links_block_pass])
  then show ?thesis
    by (simp only: pass_as_steps)
qed

lemma links_pass: "links (fst (fold (\<lambda>s. s) (pass_steps ebs ty first bs) st)) = links (fst st)"
proof (rule links_fold_steps)
  fix s st'
  assume "s \<in> set (pass_steps ebs ty first bs)"
  then obtain b i where "s = slot_step ebs ty b i"
    by (rule pass_steps_member)
  then show "links (fst (s st')) = links (fst st')"
    by (simp only: links_slot_step)
qed

lemma round_walks:
  assumes "run pool ty start bs"
  shows "sort_rounds ebs ty start pool =
           (if snd (fold (\<lambda>s. s) (round_steps ebs ty bs) (pool, True))
            then Some (fst (fold (\<lambda>s. s) (round_steps ebs ty bs) (pool, True)))
            else sort_rounds ebs ty start (fst (fold (\<lambda>s. s) (round_steps ebs ty bs) (pool, True))))"
proof -
  define st1 where "st1 = fold (\<lambda>s. s) (pass_steps ebs ty 1 bs) (pool, True)"
  define st2 where "st2 = fold (\<lambda>s. s) (pass_steps ebs ty 0 bs) st1"
  have 1: "walk_chain (block_pass ebs ty 1) ty start (pool, True) = Some st1"
    unfolding st1_def using assms by (intro walk_pass) simp
  have "links (fst st1) = links pool"
    unfolding st1_def by (simp only: links_pass fst_conv)
  from run_links [OF this] have "run (fst st1) ty start bs"
    using assms by blast
  then have 2: "walk_chain (block_pass ebs ty 0) ty start st1 = Some st2"
    unfolding st2_def by (rule walk_pass)
  have 3: "fold (\<lambda>s. s) (round_steps ebs ty bs) (pool, True) = st2"
    by (simp only: round_steps_def fold_append comp_def st1_def st2_def)
  have "sort_rounds ebs ty start pool = (if snd st2 then Some (fst st2) else sort_rounds ebs ty start (fst st2))"
    by (subst sort_rounds.simps) (simp only: 1 2 Option.bind.simps)
  then show ?thesis
    by (simp only: 3)
qed

lemma round_step_progress:
  assumes "s \<in> set (round_steps ebs ty bs)" "chain_inv ebs ty start bs (fst st)"
  shows "progress bs st (s st)"
proof -
  from assms(1) have "s \<in> set (pass_steps ebs ty 1 bs) \<or> s \<in> set (pass_steps ebs ty 0 bs)"
    by (simp add: round_steps_def)
  then show ?thesis
    using pass_step_progress [OF _ assms(2)] by blast
qed

lemma round_progress:
  assumes "chain_inv ebs ty start bs pool"
  shows "progress bs (pool, True) (fold (\<lambda>s. s) (round_steps ebs ty bs) (pool, True))"
proof (rule fold_steps_progress [where ebs = ebs and ty = ty and start = start])
  fix s and st :: "ebpool \<times> bool"
  assume "s \<in> set (round_steps ebs ty bs)" and "chain_inv ebs ty start bs (fst st)"
  then show "progress bs st (s st)"
    by (rule round_step_progress)
next
  show "chain_inv ebs ty start bs (fst (pool, True))"
    using assms by simp
qed

lemma quiet_round_sorted:
  assumes inv: "chain_inv ebs ty start bs pool"
    and quiet: "snd (fold (\<lambda>s. s) (round_steps ebs ty bs) (pool, True))"
  shows "sorted (neighbor_ids pool bs)"
proof -
  have same: "\<forall>s\<in>set (round_steps ebs ty bs). s (pool, True) = (pool, True)"
  proof (rule fold_steps_unchanged [where ebs = ebs and ty = ty and start = start and bs = bs])
    fix s and st :: "ebpool \<times> bool"
    assume "s \<in> set (round_steps ebs ty bs)" and "chain_inv ebs ty start bs (fst st)"
    then show "progress bs st (s st)"
      by (rule round_step_progress)
  next
    show "chain_inv ebs ty start bs (fst (pool, True))"
      using inv by simp
  next
    show "snd (fold (\<lambda>s. s) (round_steps ebs ty bs) (pool, True))"
      by (rule quiet)
  qed
  have pos: "0 < ebs" and run: "run pool ty start bs"
    and len: "\<forall>b\<in>set bs. length (edges (pool ! b)) = ebs"
    using inv by (simp_all add: chain_inv_def)
  have ord: "in_order ebs ty pool b" if b: "b \<in> set bs" for b
  proof (rule unchanged_in_order)
    fix i assume "i < ebs"
    then have "i \<in> set (strided 1 ebs 2) \<or> i \<in> set (strided 0 ebs 2)"
      by (rule every_slot_visited)
    then have "slot_step ebs ty b i \<in> set (round_steps ebs ty bs)"
      using b unfolding round_steps_def pass_steps_def by auto
    with same show "slot_step ebs ty b i (pool, True) = (pool, True)"
      by blast
  next
    show "0 < ebs" by (rule pos)
  qed
  have "\<forall>b\<in>set bs. length (edges (pool ! b)) = ebs \<and> in_order ebs ty pool b"
    using len ord by blast
  with pos run show ?thesis
    by (rule in_order_sorted)
qed

lemma sort_rounds_sorts:
  assumes "chain_inv ebs ty start bs pool"
  shows "\<exists>mid. sort_rounds ebs ty start pool = Some mid \<and> chain_inv ebs ty start bs mid
           \<and> sorted (neighbor_ids mid bs) \<and> mset (slots mid bs) = mset (slots pool bs)"
  using assms
proof (induction "disorder 0 (slots pool bs)" arbitrary: pool rule: less_induct)
  case less
  define st where "st = fold (\<lambda>s. s) (round_steps ebs ty bs) (pool, True)"
  from less.prems have run: "run pool ty start bs"
    by (simp add: chain_inv_def)
  have unfold: "sort_rounds ebs ty start pool
                  = (if snd st then Some (fst st) else sort_rounds ebs ty start (fst st))"
    unfolding st_def by (rule round_walks [OF run])
  have prog: "progress bs (pool, True) st"
    unfolding st_def by (rule round_progress [OF less.prems])
  show ?case
  proof (cases "snd st")
    case True
    with prog have "st = (pool, True)"
      unfolding progress_def by blast
    then have "sort_rounds ebs ty start pool = Some pool"
      using unfold by simp
    moreover have "sorted (neighbor_ids pool bs)"
      using less.prems True unfolding st_def by (rule quiet_round_sorted)
    ultimately show ?thesis
      using less.prems by blast
  next
    case False
    then have ne: "st \<noteq> (pool, True)"
      by auto
    note ch = progress_changed [OF prog ne]
    have inv': "chain_inv ebs ty start bs (fst st)"
      using progress_inv [of ebs ty start bs "(pool, True)" st] prog less.prems by simp
    have "disorder 0 (slots (fst st) bs) < disorder 0 (slots pool bs)"
      using ch(5) by simp
    from less.hyps [OF this inv'] obtain mid where mid:
      "sort_rounds ebs ty start (fst st) = Some mid" "chain_inv ebs ty start bs mid"
      "sorted (neighbor_ids mid bs)" "mset (slots mid bs) = mset (slots (fst st) bs)"
      by blast
    have "sort_rounds ebs ty start pool = Some mid"
      using unfold False mid(1) by simp
    moreover have "mset (slots mid bs) = mset (slots pool bs)"
      using mid(4) ch(4) by simp
    ultimately show ?thesis
      using mid(2,3) by blast
  qed
qed

lemma summarize_slot_links:
  "next_block (fst (summarize_slot i s)) = next_block (fst s)
   \<and> etype (fst (summarize_slot i s)) = etype (fst s)"
proof -
  obtain eb l sm c h where "s = (eb, l, sm, c, h)"
    by (metis prod_cases5)
  then show ?thesis by simp
qed

lemma fold_summarize_links:
  "next_block (fst (fold summarize_slot is s)) = next_block (fst s)
   \<and> etype (fst (fold summarize_slot is s)) = etype (fst s)"
  by (induction "is" arbitrary: s) (simp_all add: summarize_slot_links)

lemma store_summary_fields:
  "next_block (store_summary s) = next_block (fst s) \<and> etype (store_summary s) = etype (fst s)
   \<and> edges (store_summary s) = edges (fst s)"
proof -
  obtain eb l sm c h where "s = (eb, l, sm, c, h)"
    by (metis prod_cases5)
  then show ?thesis by simp
qed

lemma links_summarize_block: "links (fst (summarize_block ebs b st)) = links (fst st)"
  unfolding summarize_block_def fst_conv
  by (rule links_update) (simp_all add: store_summary_fields fold_summarize_links)

lemma summarize_slot_edges:
  assumes "i < length (edges (fst s))"
  shows "edges (fst (summarize_slot i s)) = (edges (fst s))[i := retire (edges (fst s) ! i)]"
proof -
  obtain eb l sm c h where s: "s = (eb, l, sm, c, h)"
    by (metis prod_cases5)
  show ?thesis
  proof (cases "stinger_eb_is_blank eb i")
    case True
    then have "retire (edges eb ! i) = edges eb ! i"
      by (simp add: retire_def dead_slot_def stinger_eb_is_blank_def)
    with True s show ?thesis by simp
  next
    case False
    with s show ?thesis
      by (simp add: retire_def dead_slot_def)
  qed
qed

lemma fold_summarize_edges:
  "n \<le> length (edges (fst s)) \<Longrightarrow>
   edges (fst (fold summarize_slot [0..<n] s)) = map retire (take n (edges (fst s))) @ drop n (edges (fst s))"
proof (induction n)
  case 0
  then show ?case by simp
next
  case (Suc n)
  let ?es = "edges (fst s)"
  let ?mid = "map retire (take n ?es) @ drop n ?es"
  from Suc have n: "n < length ?es" and IH: "edges (fst (fold summarize_slot [0..<n] s)) = ?mid"
    by simp_all
  have "n < length (edges (fst (fold summarize_slot [0..<n] s)))"
    using n by (simp add: IH)
  then have "edges (fst (fold summarize_slot [0..<Suc n] s)) = ?mid[n := retire (?mid ! n)]"
    by (simp add: summarize_slot_edges IH)
  then show ?case
    using n by (simp only: bs64_n_step)
qed

lemma fold_blocks_nth:
  "distinct bs \<Longrightarrow> c < length p \<Longrightarrow>
   fold (\<lambda>b p. p[b := g (p ! b)]) bs p ! c = (if c \<in> set bs then g (p ! c) else p ! c)"
proof (induction bs arbitrary: p)
  case Nil
  then show ?case by simp
next
  case (Cons b bs)
  then have "fold (\<lambda>b p. p[b := g (p ! b)]) bs (p[b := g (p ! b)]) ! c
               = (if c \<in> set bs then g (p[b := g (p ! b)] ! c) else p[b := g (p ! b)] ! c)"
    by simp
  moreover have "c \<noteq> b" if "c \<in> set bs"
    using that Cons.prems(1) by auto
  ultimately show ?case
    using Cons.prems by (cases "c = b") (simp_all add: nth_list_update)
qed

lemma fold_summarize_block:
  "fst (fold (summarize_block ebs) bs st)
     = fold (\<lambda>b p. p[b := store_summary (fold summarize_slot [0..<ebs] (p ! b, - (2 ^ 63), 2 ^ 63 - 1, 0, 0))])
            bs (fst st)"
  by (induction bs arbitrary: st) (simp_all add: summarize_block_def)

lemma summarized_slots:
  assumes "distinct bs" "\<forall>b\<in>set bs. b < length pool \<and> length (edges (pool ! b)) = ebs"
  shows "slots (fst (fold (summarize_block ebs) bs (pool, f))) bs = map retire (slots pool bs)"
proof -
  let ?fin = "fst (fold (summarize_block ebs) bs (pool, f))"
  have "edges (?fin ! b) = map retire (edges (pool ! b))" if b: "b \<in> set bs" for b
  proof -
    have "?fin ! b = store_summary (fold summarize_slot [0..<ebs] (pool ! b, - (2 ^ 63), 2 ^ 63 - 1, 0, 0))"
      using assms b
        fold_blocks_nth [of bs b pool
          "\<lambda>eb. store_summary (fold summarize_slot [0..<ebs] (eb, - (2 ^ 63), 2 ^ 63 - 1, 0, 0))"]
      by (simp add: fold_summarize_block)
    then show ?thesis
      using assms(2) b by (simp add: store_summary_fields fold_summarize_edges)
  qed
  then have "map (\<lambda>b. edges (?fin ! b)) bs = map (\<lambda>b. map retire (edges (pool ! b))) bs"
    by simp
  then have "slots ?fin bs = concat (map (\<lambda>b. map retire (edges (pool ! b))) bs)"
    by (simp only: slots_def)
  also have "\<dots> = map retire (slots pool bs)"
    by (simp add: slots_def map_concat comp_def)
  finally show ?thesis .
qed

section \<open>Sorting the adjacency list of a vertex: the order after the call\<close>

text \<open>
  Claim C5: after \<open>stinger_sort_edge_list\<close> the chain, read as one array of neighbor
  ids, is ascending with the tombstones \<open>-1\<close> treated as maximal, at the tail. What the
  function does: the comparison is the signed one, so the rounds end with the array
  ascending by the signed neighbor id, the tombstones \<open>-1\<close> before every neighbor
  id from 0 on; the slots are exchanged as wholes and none is lost. Then the function
  returns, the last walk having set the neighbor of every slot with four zero fields to
  \<open>-1\<close> where it stands. So on a chain without such a slot the array is ascending
  by the signed neighbor id on return, and holds the slots it held before.

  In the statement \<open>pre\<close> are the blocks of other types at the head of the chain of the
  vertex, \<open>start\<close> is the first block of the type (or 0), \<open>bs\<close> are the blocks that the
  walks visit, each with \<open>ebs\<close> slots, and \<open>mid\<close> is the pool when the rounds have ended.
\<close>

theorem stinger_sort_edge_list_ascending:
  assumes "skipped pool ty head pre start" and "run pool ty start bs"
    and "0 < ebs" and "\<forall>b\<in>set bs. length (edges (pool ! b)) = ebs"
  shows "\<exists>mid fin. sort_rounds ebs ty start pool = Some mid
           \<and> stinger_sort_edge_list ebs pool head ty = Some fin
           \<and> sorted (neighbor_ids mid bs)
           \<and> mset (slots mid bs) = mset (slots pool bs)
           \<and> slots fin bs = map retire (slots mid bs)
           \<and> ((\<forall>e\<in>set (slots pool bs). \<not> dead_slot e)
                \<longrightarrow> sorted (neighbor_ids fin bs) \<and> mset (slots fin bs) = mset (slots pool bs))"
proof -
  have "chain_inv ebs ty start bs pool"
    using assms(2-4) run_distinct [OF assms(2)] by (simp add: chain_inv_def)
  then obtain mid where mid: "sort_rounds ebs ty start pool = Some mid"
      "chain_inv ebs ty start bs mid" "sorted (neighbor_ids mid bs)"
      "mset (slots mid bs) = mset (slots pool bs)"
    using sort_rounds_sorts by blast
  define fin where "fin = fst (fold (summarize_block ebs) bs (mid, True))"
  from mid(2) have run: "run mid ty start bs" and dist: "distinct bs"
    and len: "\<forall>b\<in>set bs. length (edges (mid ! b)) = ebs"
    by (simp_all add: chain_inv_def)
  have "run (fst (mid, True)) ty start bs"
    using run by simp
  then have walk: "walk_chain (summarize_block ebs) ty start (mid, True)
                     = Some (fold (summarize_block ebs) bs (mid, True))"
    by (rule walk_chain_run [OF links_summarize_block])
  have start: "find_start pool ty head = Some start"
    using assms(1) by (rule find_start_skipped)
  have ret: "stinger_sort_edge_list ebs pool head ty = Some fin"
    by (simp add: stinger_sort_edge_list_def start mid(1) walk fin_def)
  have "\<forall>b\<in>set bs. b < length mid \<and> length (edges (mid ! b)) = ebs"
    using run_in_range [OF run] len by blast
  with dist have retired: "slots fin bs = map retire (slots mid bs)"
    unfolding fin_def by (rule summarized_slots)
  have live: "sorted (neighbor_ids fin bs) \<and> mset (slots fin bs) = mset (slots pool bs)"
    if "\<forall>e\<in>set (slots pool bs). \<not> dead_slot e"
  proof -
    have "set (slots mid bs) = set (slots pool bs)"
      using mid(4) by (rule mset_eq_setD)
    with that have "map retire (slots mid bs) = slots mid bs"
      by (intro map_idI) (simp add: retire_def)
    with retired have "slots fin bs = slots mid bs"
      by simp
    then show ?thesis
      using mid(3,4) by (simp add: neighbor_ids_def)
  qed
  from mid(1,3,4) ret retired live show ?thesis
    by blast
qed

theorem stinger_sort_edge_list_ascending_witness:
  "(let pool =
            [\<lparr>next_block = 0, etype = 0, numEdges = 0, high = 0, smallStamp = 0, largeStamp = 0,
              edges = [\<lparr>neighbor = 0, weight = 0, timeFirst = 0, timeRecent = 0\<rparr>,
                       \<lparr>neighbor = 0, weight = 0, timeFirst = 0, timeRecent = 0\<rparr>]\<rparr>,
             \<lparr>next_block = 2, etype = 3, numEdges = 1, high = 1, smallStamp = 1, largeStamp = 1,
              edges = [\<lparr>neighbor = 9, weight = 1, timeFirst = 1, timeRecent = 1\<rparr>,
                       \<lparr>neighbor = - 1, weight = 0, timeFirst = 0, timeRecent = 0\<rparr>]\<rparr>,
             \<lparr>next_block = 3, etype = 7, numEdges = 2, high = 2, smallStamp = 10, largeStamp = 20,
              edges = [\<lparr>neighbor = 5, weight = 1, timeFirst = 10, timeRecent = 20\<rparr>,
                       \<lparr>neighbor = 4, weight = 1, timeFirst = 1, timeRecent = 2\<rparr>]\<rparr>,
             \<lparr>next_block = 0, etype = 7, numEdges = 2, high = 2, smallStamp = 11, largeStamp = 12,
              edges = [\<lparr>neighbor = 3, weight = 1, timeFirst = 11, timeRecent = 12\<rparr>,
                       \<lparr>neighbor = 8, weight = 1, timeFirst = 5, timeRecent = 6\<rparr>]\<rparr>]
    in skipped pool 7 1 [1] 2 \<and> run pool 7 2 [2, 3]
       \<and> length (edges (pool ! 2)) = 2 \<and> length (edges (pool ! 3)) = 2
       \<and> (\<exists>fin. stinger_sort_edge_list 2 pool 1 7 = Some fin
                  \<and> sorted (neighbor_ids fin [2, 3])
                  \<and> mset (slots fin [2, 3]) = mset (slots pool [2, 3])))"
proof -
  let ?pool =
           "[\<lparr>next_block = 0, etype = 0, numEdges = 0, high = 0, smallStamp = 0, largeStamp = 0,
              edges = [\<lparr>neighbor = 0, weight = 0, timeFirst = 0, timeRecent = 0\<rparr>,
                       \<lparr>neighbor = 0, weight = 0, timeFirst = 0, timeRecent = 0\<rparr>]\<rparr>,
             \<lparr>next_block = 2, etype = 3, numEdges = 1, high = 1, smallStamp = 1, largeStamp = 1,
              edges = [\<lparr>neighbor = 9, weight = 1, timeFirst = 1, timeRecent = 1\<rparr>,
                       \<lparr>neighbor = - 1, weight = 0, timeFirst = 0, timeRecent = 0\<rparr>]\<rparr>,
             \<lparr>next_block = 3, etype = 7, numEdges = 2, high = 2, smallStamp = 10, largeStamp = 20,
              edges = [\<lparr>neighbor = 5, weight = 1, timeFirst = 10, timeRecent = 20\<rparr>,
                       \<lparr>neighbor = 4, weight = 1, timeFirst = 1, timeRecent = 2\<rparr>]\<rparr>,
             \<lparr>next_block = 0, etype = 7, numEdges = 2, high = 2, smallStamp = 11, largeStamp = 12,
              edges = [\<lparr>neighbor = 3, weight = 1, timeFirst = 11, timeRecent = 12\<rparr>,
                       \<lparr>neighbor = 8, weight = 1, timeFirst = 5, timeRecent = 6\<rparr>]\<rparr>] :: ebpool"
  have 1: "skipped ?pool 7 1 [1] 2"
    by simp
  have 2: "run ?pool 7 2 [2, 3]"
    by simp
  have 3: "0 < (2::nat)"
    by simp
  have 4: "\<forall>b\<in>set [2, 3]. length (edges (?pool ! b)) = 2"
    by simp
  have 5: "\<forall>e\<in>set (slots ?pool [2, 3]). \<not> dead_slot e"
    by (simp add: slots_def dead_slot_def)
  from stinger_sort_edge_list_ascending [OF 1 2 3 4] 5
  have "\<exists>fin. stinger_sort_edge_list 2 ?pool 1 7 = Some fin
          \<and> sorted (neighbor_ids fin [2, 3])
          \<and> mset (slots fin [2, 3]) = mset (slots ?pool [2, 3])"
    by blast
  with 1 2 show ?thesis
    unfolding Let_def by simp
qed

text \<open>
  A chain of two blocks of type 7 with two slots each (block 0 is the sentinel that
  ends every chain). The first holds the neighbor 5 and a tombstone, the second the
  neighbors 3 and 4: the function leaves the tombstone in the first slot of the
  chain, before the live neighbors. In the second chain the slot with neighbor 0 and
  weight 1 is live and the two slots of the second block are zero in every field: they
  are sorted as neighbor 0 and become \<open>-1\<close> afterwards, behind the live neighbor 0 and
  before the live neighbor 5.
\<close>

theorem stinger_sort_edge_list_tombstone_first:
  "map_option (\<lambda>fin. neighbor_ids fin [1, 2])
     (stinger_sort_edge_list 2
        [\<lparr>next_block = 0, etype = 0, numEdges = 0, high = 0, smallStamp = 0, largeStamp = 0,
          edges = [\<lparr>neighbor = 0, weight = 0, timeFirst = 0, timeRecent = 0\<rparr>,
                   \<lparr>neighbor = 0, weight = 0, timeFirst = 0, timeRecent = 0\<rparr>]\<rparr>,
         \<lparr>next_block = 2, etype = 7, numEdges = 1, high = 1, smallStamp = 10, largeStamp = 20,
          edges = [\<lparr>neighbor = 5, weight = 1, timeFirst = 10, timeRecent = 20\<rparr>,
                   \<lparr>neighbor = - 1, weight = 0, timeFirst = 0, timeRecent = 0\<rparr>]\<rparr>,
         \<lparr>next_block = 0, etype = 7, numEdges = 2, high = 2, smallStamp = 1, largeStamp = 12,
          edges = [\<lparr>neighbor = 3, weight = 1, timeFirst = 11, timeRecent = 12\<rparr>,
                   \<lparr>neighbor = 4, weight = 1, timeFirst = 1, timeRecent = 2\<rparr>]\<rparr>]
        1 7)
   = Some [- 1, 3, 4, 5]
   \<and> map_option (\<lambda>fin. neighbor_ids fin [1, 2])
     (stinger_sort_edge_list 2
        [\<lparr>next_block = 0, etype = 0, numEdges = 0, high = 0, smallStamp = 0, largeStamp = 0,
          edges = [\<lparr>neighbor = 0, weight = 0, timeFirst = 0, timeRecent = 0\<rparr>,
                   \<lparr>neighbor = 0, weight = 0, timeFirst = 0, timeRecent = 0\<rparr>]\<rparr>,
         \<lparr>next_block = 2, etype = 7, numEdges = 2, high = 2, smallStamp = 7, largeStamp = 20,
          edges = [\<lparr>neighbor = 5, weight = 1, timeFirst = 10, timeRecent = 20\<rparr>,
                   \<lparr>neighbor = 0, weight = 1, timeFirst = 7, timeRecent = 7\<rparr>]\<rparr>,
         \<lparr>next_block = 0, etype = 7, numEdges = 0, high = 0, smallStamp = 0, largeStamp = 0,
          edges = [\<lparr>neighbor = 0, weight = 0, timeFirst = 0, timeRecent = 0\<rparr>,
                   \<lparr>neighbor = 0, weight = 0, timeFirst = 0, timeRecent = 0\<rparr>]\<rparr>]
        1 7)
   = Some [0, - 1, - 1, 5]"
  by code_simp

section \<open>The cached summary of a block without live slots\<close>

text \<open>
  Claim C8: after \<open>stinger_sort_edge_list\<close> the cached fields of every processed block
  equal the values recomputed from its live slots, \<open>high\<close> being one past the highest
  occupied slot. For a block of two tombstones the function stores \<open>numEdges = 0\<close>,
  the stamps \<^verbatim>\<open>INT64_MAX\<close> and \<^verbatim>\<open>INT64_MIN\<close>, and \<open>high = 1\<close>, although no slot is
  occupied: \<^verbatim>\<open>curHigh\<close> starts at 0, the index of the first slot, and
  \<^verbatim>\<open>curHigh + 1\<close> is stored. Block 0 is the sentinel that ends every chain.
\<close>

theorem summary_of_empty_block_has_high_one:
  "stinger_sort_edge_list 2
     [\<lparr>next_block = 0, etype = 0, numEdges = 0, high = 0, smallStamp = 0, largeStamp = 0,
       edges = [\<lparr>neighbor = 0, weight = 0, timeFirst = 0, timeRecent = 0\<rparr>,
                \<lparr>neighbor = 0, weight = 0, timeFirst = 0, timeRecent = 0\<rparr>]\<rparr>,
      \<lparr>next_block = 0, etype = 7, numEdges = 2, high = 2, smallStamp = 3, largeStamp = 4,
       edges = [\<lparr>neighbor = - 1, weight = 1, timeFirst = 3, timeRecent = 3\<rparr>,
                \<lparr>neighbor = - 1, weight = 1, timeFirst = 4, timeRecent = 4\<rparr>]\<rparr>]
     1 7
   = Some
     [\<lparr>next_block = 0, etype = 0, numEdges = 0, high = 0, smallStamp = 0, largeStamp = 0,
       edges = [\<lparr>neighbor = 0, weight = 0, timeFirst = 0, timeRecent = 0\<rparr>,
                \<lparr>neighbor = 0, weight = 0, timeFirst = 0, timeRecent = 0\<rparr>]\<rparr>,
      \<lparr>next_block = 0, etype = 7, numEdges = 0, high = 1,
       smallStamp = 0x7FFFFFFFFFFFFFFF, largeStamp = 0x8000000000000000,
       edges = [\<lparr>neighbor = - 1, weight = 1, timeFirst = 3, timeRecent = 3\<rparr>,
                \<lparr>neighbor = - 1, weight = 1, timeFirst = 4, timeRecent = 4\<rparr>]\<rparr>]"
  by code_simp

end
